theory Spec2Isabelle
  imports Main "HOL-Library.Char_ord" "HOL-Library.List_Lexorder" "HOL-Library.Log_Nat"
begin

unbundle bit_operations_syntax

section \<open>Characters, strings and the C and C++ library routines the code calls\<close>

text \<open>
  A \<^verbatim>\<open>std::string\<close> is a \<^typ>\<open>string\<close>: a list of 8-bit characters. The character
  classes are those of the C locale. \<^verbatim>\<open>char\<close> is taken to be signed, as it is on x86; the
  comparison \<^verbatim>\<open>c < 32\<close> of the source is \<open>char_val c < 32\<close>. No theorem below depends on
  that choice for a byte under 128.
\<close>

definition char_val :: "char \<Rightarrow> int" where
  "char_val c = (if (of_char c :: nat) < 128 then int (of_char c) else int (of_char c) - 256)"

definition isdigit :: "char \<Rightarrow> bool" where
  "isdigit c \<longleftrightarrow> 48 \<le> (of_char c :: nat) \<and> (of_char c :: nat) \<le> 57"

definition isalpha :: "char \<Rightarrow> bool" where
  "isalpha c \<longleftrightarrow> (65 \<le> (of_char c :: nat) \<and> (of_char c :: nat) \<le> 90)
     \<or> (97 \<le> (of_char c :: nat) \<and> (of_char c :: nat) \<le> 122)"

definition isalnum :: "char \<Rightarrow> bool" where
  "isalnum c \<longleftrightarrow> isalpha c \<or> isdigit c"

definition isspace :: "char \<Rightarrow> bool" where
  "isspace c \<longleftrightarrow> (of_char c :: nat) = 32 \<or> (9 \<le> (of_char c :: nat) \<and> (of_char c :: nat) \<le> 13)"

definition isxdigit :: "char \<Rightarrow> bool" where
  "isxdigit c \<longleftrightarrow> isdigit c \<or> (65 \<le> (of_char c :: nat) \<and> (of_char c :: nat) \<le> 70)
     \<or> (97 \<le> (of_char c :: nat) \<and> (of_char c :: nat) \<le> 102)"

text \<open>\<^verbatim>\<open>s.substr(pos, len)\<close>; every call of the source has \<open>pos \<le> length s\<close>.\<close>

definition substr :: "string \<Rightarrow> nat \<Rightarrow> nat \<Rightarrow> string" where
  "substr s pos len = take len (drop pos s)"

text \<open>\<^verbatim>\<open>s[i]\<close> of a \<^verbatim>\<open>std::string\<close>: the terminating NUL at \<open>i = length s\<close>.\<close>

definition char_at :: "string \<Rightarrow> nat \<Rightarrow> char" where
  "char_at s i = (if i < length s then s ! i else CHR 0x00)"

text \<open>The loop \<^verbatim>\<open>while (idx < s.size() && P(s[idx])) idx++;\<close> returns the new cursor.\<close>

function scan_while :: "(char \<Rightarrow> bool) \<Rightarrow> string \<Rightarrow> nat \<Rightarrow> nat" where
  "scan_while P s idx = (if idx < length s \<and> P (s ! idx) then scan_while P s (Suc idx) else idx)"
  by pat_completeness auto
termination
  by (relation "measure (\<lambda>(P, s, idx). length s - idx)") auto

declare scan_while.simps [simp del]

lemma scan_while_ge: "idx \<le> scan_while P s idx"
proof (induction P s idx rule: scan_while.induct)
  case (1 P s idx)
  then show ?case
    by (subst scan_while.simps) (auto simp: Suc_leD)
qed

lemma scan_while_le: "idx \<le> length s \<Longrightarrow> scan_while P s idx \<le> length s"
proof (induction P s idx rule: scan_while.induct)
  case (1 P s idx)
  then show ?case
    by (subst scan_while.simps) auto
qed

lemma scan_while_gt: "idx < length s \<Longrightarrow> P (s ! idx) \<Longrightarrow> idx < scan_while P s idx"
  using scan_while_ge [of "Suc idx" P s] by (subst scan_while.simps) simp

lemma scan_while_stop:
  "scan_while P s idx < length s \<Longrightarrow> \<not> P (s ! scan_while P s idx)"
proof (induction P s idx rule: scan_while.induct)
  case (1 P s idx)
  show ?case
  proof (cases "idx < length s \<and> P (s ! idx)")
    case True
    then have eq: "scan_while P s idx = scan_while P s (Suc idx)"
      by (subst scan_while.simps) simp
    from "1.IH" [OF True] "1.prems" show ?thesis
      unfolding eq by simp
  next
    case False
    then have eq: "scan_while P s idx = idx"
      by (subst scan_while.simps) auto
    from False "1.prems" show ?thesis
      unfolding eq by simp
  qed
qed

lemma scan_while_takeWhile: "scan_while P s idx = idx + length (takeWhile P (drop idx s))"
proof (induction P s idx rule: scan_while.induct)
  case (1 P s idx)
  show ?case
  proof (cases "idx < length s")
    case True
    then have d: "drop idx s = s ! idx # drop (Suc idx) s"
      by (simp add: Cons_nth_drop_Suc)
    show ?thesis
      using 1 True by (subst scan_while.simps) (simp add: d)
  next
    case False
    then show ?thesis
      by (subst scan_while.simps) simp
  qed
qed

definition skip_ws :: "string \<Rightarrow> nat \<Rightarrow> nat" where
  "skip_ws s idx = scan_while isspace s idx"

datatype error =
    JSONParseError string
  | XMLParseError string
  | invalid_argument
  | out_of_range

text \<open>
  \<^verbatim>\<open>std::stoi(str, nullptr, base)\<close>, for base 10 and 16, after \<^verbatim>\<open>strtol\<close>: leading white
  space, an optional sign, for base 16 an optional \<^verbatim>\<open>0x\<close> before a hexadecimal digit, then
  the longest run of digits. No digit is \<^verbatim>\<open>std::invalid_argument\<close>, a value that does not
  fit a 32-bit \<^verbatim>\<open>int\<close> is \<^verbatim>\<open>std::out_of_range\<close>.
\<close>

definition digit_val :: "char \<Rightarrow> nat" where
  "digit_val c =
     (if isdigit c then of_char c - 48
      else if 97 \<le> (of_char c :: nat) then of_char c - 87
      else of_char c - 55)"

definition is_base_digit :: "nat \<Rightarrow> char \<Rightarrow> bool" where
  "is_base_digit base c \<longleftrightarrow> (if base = 16 then isxdigit c else isdigit c)"

definition digits_val :: "nat \<Rightarrow> string \<Rightarrow> nat" where
  "digits_val base ds = foldl (\<lambda>a c. a * base + digit_val c) 0 ds"

definition strip_sign :: "string \<Rightarrow> bool \<times> string" where
  "strip_sign s =
     (case s of
        [] \<Rightarrow> (False, [])
      | c # r \<Rightarrow> if c = CHR ''-'' then (True, r) else if c = CHR ''+'' then (False, r) else (False, s))"

definition strip_0x :: "nat \<Rightarrow> string \<Rightarrow> string" where
  "strip_0x base s =
     (if base = 16 \<and> 2 < length s \<and> s ! 0 = CHR ''0'' \<and> (s ! 1 = CHR ''x'' \<or> s ! 1 = CHR ''X'')
         \<and> isxdigit (s ! 2)
      then drop 2 s else s)"

definition stoi :: "nat \<Rightarrow> string \<Rightarrow> error + int" where
  "stoi base str =
     (let (neg, s2) = strip_sign (dropWhile isspace str);
          ds = takeWhile (is_base_digit base) (strip_0x base s2)
      in if ds = [] then Inl invalid_argument
         else let v = int (digits_val base ds); r = (if neg then - v else v)
              in if r < - 2147483648 \<or> 2147483647 < r then Inl out_of_range else Inr r)"

section \<open>The model of \<^verbatim>\<open>double\<close>\<close>

text \<open>
  A finite \<^verbatim>\<open>double\<close> is \<open>Double m e\<close>, the number \<open>m * 2 ^ e\<close>, kept in the canonical
  form that \<open>norm_dyadic\<close> produces: \<open>m\<close> odd, or \<open>Double 0 0\<close> for zero. Two doubles are
  then equal under \<^verbatim>\<open>==\<close> exactly when they are the same term. NaN and the infinities are
  outside the model, and the two zeros, equal under \<^verbatim>\<open>==\<close>, are one value.
\<close>

datatype double = Double (mant: int) (expo: int)

function norm_dyadic :: "int \<Rightarrow> int \<Rightarrow> double" where
  "norm_dyadic m e =
     (if m = 0 then Double 0 0
      else if even m then norm_dyadic (m div 2) (e + 1)
      else Double m e)"
  by pat_completeness auto
termination
  by (relation "measure (\<lambda>(m, e). nat \<bar>m\<bar>)") auto

declare norm_dyadic.simps [simp del]

text \<open>\<open>div_half_even n d\<close> is \<open>n / d\<close> rounded to the nearest integer, ties to even.\<close>

definition div_half_even :: "int \<Rightarrow> int \<Rightarrow> int" where
  "div_half_even n d =
     (let f = n div d; r = n mod d
      in if 2 * r < d then f else if d < 2 * r then f + 1 else if even f then f else f + 1)"

text \<open>\<open>floor_log2 n d\<close> is the \<open>e\<close> with \<open>2 ^ e \<le> n / d < 2 ^ (e + 1)\<close>, for positive \<open>n\<close>, \<open>d\<close>.\<close>

definition floor_log2 :: "int \<Rightarrow> int \<Rightarrow> int" where
  "floor_log2 n d =
     (let e = bitlen n - bitlen d
      in if (if 0 \<le> e then d * 2 ^ nat e \<le> n else d \<le> n * 2 ^ nat (- e)) then e else e - 1)"

text \<open>
  Conversion of the magnitude \<open>n / d\<close> with the sign \<open>neg\<close> to the nearest binary64 value,
  ties to even: 53 significant bits, least exponent \<open>- 1074\<close>. \<open>None\<close> is a range error,
  for which glibc sets \<^verbatim>\<open>ERANGE\<close>: the result would be infinite, or the result is inexact
  and the value is tiny. On x86-64 glibc detects tininess after rounding: the value is tiny
  when, rounded to 53 bits with no bound on the exponent, it is still below \<open>2 ^ - 1022\<close>;
  so a value under \<open>2 ^ - 1022\<close> is not tiny only if its binary exponent \<open>e\<close> is \<open>- 1023\<close> and
  that rounding carries to \<open>2 ^ - 1022\<close>.
\<close>

definition round_binary64 :: "bool \<Rightarrow> int \<Rightarrow> int \<Rightarrow> double option" where
  "round_binary64 neg n d =
     (if n = 0 then Some (Double 0 0)
      else let e = floor_log2 n d;
               u = max (e - 52) (- 1074);
               num = (if 0 \<le> u then n else n * 2 ^ nat (- u));
               den = (if 0 \<le> u then d * 2 ^ nat u else d);
               m = div_half_even num den
           in if 0 \<le> u \<and> 2 ^ 1024 \<le> m * 2 ^ nat u then None
              else if e < - 1022 then
                (if m * den = num then Some (norm_dyadic (if neg then - m else m) u)
                 else if e = - 1023 then
                   (if div_half_even (n * 2 ^ 1075) d = 2 ^ 53
                    then Some (norm_dyadic (if neg then - m else m) u)
                    else None)
                 else None)
              else Some (norm_dyadic (if neg then - m else m) u))"

text \<open>
  \<^verbatim>\<open>std::stod\<close> on a decimal literal, which is all \<^verbatim>\<open>parse_number\<close> passes to it: white
  space, sign, digits, an optional fraction and an optional exponent, the longest such
  prefix. No digit at all is \<^verbatim>\<open>std::invalid_argument\<close>, a range error is
  \<^verbatim>\<open>std::out_of_range\<close>.
\<close>

definition stod_exponent :: "string \<Rightarrow> int" where
  "stod_exponent r =
     (case r of
        [] \<Rightarrow> 0
      | c # t \<Rightarrow>
          if c = CHR ''e'' \<or> c = CHR ''E'' then
            (let (eneg, t') = strip_sign t; ed = takeWhile isdigit t'
             in if ed = [] then 0
                else if eneg then - int (digits_val 10 ed) else int (digits_val 10 ed))
          else 0)"

definition stod :: "string \<Rightarrow> error + double" where
  "stod str =
     (let (neg, s1) = strip_sign (dropWhile isspace str);
          ip = takeWhile isdigit s1;
          r1 = dropWhile isdigit s1;
          has_point = (r1 \<noteq> [] \<and> hd r1 = CHR ''.'');
          fp = (if has_point then takeWhile isdigit (tl r1) else []);
          r2 = (if has_point then dropWhile isdigit (tl r1) else r1)
      in if ip = [] \<and> fp = [] then Inl invalid_argument
         else let mantissa = int (digits_val 10 (ip @ fp));
                  dexp = stod_exponent r2 - int (length fp)
              in case (if 0 \<le> dexp then round_binary64 neg (mantissa * 10 ^ nat dexp) 1
                       else round_binary64 neg mantissa (10 ^ nat (- dexp))) of
                   None \<Rightarrow> Inl out_of_range
                 | Some num \<Rightarrow> Inr num)"

section \<open>The JSON value model\<close>

datatype JSON =
    JNull
  | JBool bool
  | JNumber double
  | JString string
  | JArray "JSON list"
  | JObject "(string \<times> JSON) list"

text \<open>
  \<^verbatim>\<open>std::map<std::string, T>\<close> is modelled by the list of its entries in iteration
  order. \<open>map_find\<close> is \<^verbatim>\<open>find\<close>, \<open>map_assign m k v\<close> is \<^verbatim>\<open>m[k] = v\<close>, \<open>map_subscript\<close> is
  the reference \<^verbatim>\<open>m[k]\<close>, which default-constructs a missing entry, \<open>map_erase\<close> is
  \<^verbatim>\<open>erase\<close>. Keys compare as \<^verbatim>\<open>std::string\<close>s do: lexicographically by unsigned byte.
\<close>

fun map_find :: "(string \<times> 'v) list \<Rightarrow> string \<Rightarrow> 'v option" where
  "map_find [] k = None"
| "map_find ((k', v) # m) k = (if k = k' then Some v else map_find m k)"

fun map_assign :: "(string \<times> 'v) list \<Rightarrow> string \<Rightarrow> 'v \<Rightarrow> (string \<times> 'v) list" where
  "map_assign [] k v = [(k, v)]"
| "map_assign ((k', v') # m) k v =
     (if k < k' then (k, v) # (k', v') # m
      else if k = k' then (k, v) # m
      else (k', v') # map_assign m k v)"

definition map_subscript :: "'v \<Rightarrow> (string \<times> 'v) list \<Rightarrow> string \<Rightarrow> 'v \<times> (string \<times> 'v) list" where
  "map_subscript dflt m k =
     (case map_find m k of Some v \<Rightarrow> (v, m) | None \<Rightarrow> (dflt, map_assign m k dflt))"

fun map_erase :: "(string \<times> 'v) list \<Rightarrow> string \<Rightarrow> (string \<times> 'v) list" where
  "map_erase [] k = []"
| "map_erase ((k', v) # m) k = (if k = k' then m else (k', v) # map_erase m k)"

definition is_null :: "JSON \<Rightarrow> bool" where
  "is_null v \<longleftrightarrow> v = JNull"

definition is_number :: "JSON \<Rightarrow> bool" where
  "is_number v \<longleftrightarrow> (case v of JNumber _ \<Rightarrow> True | _ \<Rightarrow> False)"

text \<open>\<^verbatim>\<open>arr.resize(n)\<close> on a vector of JSON: new slots are default-constructed, that is Null.\<close>

definition resize :: "JSON list \<Rightarrow> nat \<Rightarrow> JSON list" where
  "resize arr n = take n arr @ replicate (n - length arr) JNull"

section \<open>JSON path operations\<close>

text \<open>
  \<open>at_path_from path i current\<close> is the loop of \<^verbatim>\<open>at_path\<close> from cursor \<open>i\<close> with the
  pointer \<^verbatim>\<open>current\<close> at the given value. An exception is \<open>Inl\<close>.
\<close>

function at_path_from :: "string \<Rightarrow> nat \<Rightarrow> JSON \<Rightarrow> error + JSON" where
  "at_path_from path i current =
     (if i < length path then
        if path ! i = CHR ''.'' then at_path_from path (Suc i) current
        else if isalpha (path ! i) \<or> path ! i = CHR ''_'' then
          (let i' = scan_while (\<lambda>c. isalnum c \<or> c = CHR ''_'') path i;
               key = substr path i (i' - i)
           in case current of
                JObject obj \<Rightarrow>
                  (case map_find obj key of
                     None \<Rightarrow> Inr JNull
                   | Some v \<Rightarrow> at_path_from path i' v)
              | _ \<Rightarrow> Inr JNull)
        else if path ! i = CHR ''['' then
          (let start = Suc i;
               i' = scan_while isdigit path start
           in if length path \<le> i' \<or> path ! i' \<noteq> CHR '']''
              then Inl (JSONParseError ''Expected closing bracket'')
              else case stoi 10 (substr path start (i' - start)) of
                     Inl e \<Rightarrow> Inl e
                   | Inr idx \<Rightarrow>
                       (case current of
                          JArray arr \<Rightarrow>
                            if idx < 0 \<or> length arr \<le> nat idx then Inr JNull
                            else at_path_from path (Suc i') (arr ! nat idx)
                        | _ \<Rightarrow> Inr JNull))
        else Inl (JSONParseError (''Invalid character in path: '' @ [path ! i]))
      else Inr current)"
  by pat_completeness auto
termination
proof (relation "measure (\<lambda>(path, i, current). length path - i)", goal_cases)
  case 1
  show ?case by simp
next
  case (2 path i current)
  then show ?case by simp
next
  case (3 path i current i' key obj v)
  have "isalnum (path ! i) \<or> path ! i = CHR ''_''"
    using 3 by (auto simp: isalnum_def)
  with 3 have "i < i'"
    using scan_while_gt [of i path "\<lambda>c. isalnum c \<or> c = CHR ''_''"] by simp
  with 3 show ?case by simp
next
  case (4 path i current start i' idx arr)
  have "Suc i \<le> i'"
    using 4 scan_while_ge [of "Suc i" isdigit path] by simp
  with 4 show ?case by (auto simp: not_le)
qed

declare at_path_from.simps [simp del]

definition at_path :: "JSON \<Rightarrow> string \<Rightarrow> error + JSON" where
  "at_path this path = at_path_from path 0 this"

definition has_path :: "JSON \<Rightarrow> string \<Rightarrow> error + bool" where
  "has_path this path =
     (case at_path this path of Inl e \<Rightarrow> Inl e | Inr v \<Rightarrow> Inr (\<not> is_null v))"

text \<open>
  The first loop of \<^verbatim>\<open>set_path\<close>: the path is cut into \<^verbatim>\<open>path_parts\<close>, pairs of a key and
  an index, the index \<open>- 1\<close> marking a key step.
\<close>

function path_parts_from :: "string \<Rightarrow> nat \<Rightarrow> (string \<times> int) list \<Rightarrow> error + (string \<times> int) list" where
  "path_parts_from path i path_parts =
     (if i < length path then
        if path ! i = CHR ''.'' then path_parts_from path (Suc i) path_parts
        else if isalpha (path ! i) \<or> path ! i = CHR ''_'' then
          (let i' = scan_while (\<lambda>c. isalnum c \<or> c = CHR ''_'') path i
           in path_parts_from path i' (path_parts @ [(substr path i (i' - i), - 1)]))
        else if path ! i = CHR ''['' then
          (let start = Suc i;
               i' = scan_while isdigit path start
           in if length path \<le> i' \<or> path ! i' \<noteq> CHR '']''
              then Inl (JSONParseError ''Expected closing bracket'')
              else case stoi 10 (substr path start (i' - start)) of
                     Inl e \<Rightarrow> Inl e
                   | Inr idx \<Rightarrow> path_parts_from path (Suc i') (path_parts @ [([], idx)]))
        else Inl (JSONParseError (''Invalid character in path: '' @ [path ! i]))
      else Inr path_parts)"
  by pat_completeness auto
termination
proof (relation "measure (\<lambda>(path, i, path_parts). length path - i)", goal_cases)
  case 1
  show ?case by simp
next
  case (2 path i path_parts)
  then show ?case by simp
next
  case (3 path i path_parts i')
  have "isalnum (path ! i) \<or> path ! i = CHR ''_''"
    using 3 by (auto simp: isalnum_def)
  with 3 have "i < i'"
    using scan_while_gt [of i path "\<lambda>c. isalnum c \<or> c = CHR ''_''"] by simp
  with 3 show ?case by simp
next
  case (4 path i path_parts start i' idx)
  have "Suc i \<le> i'"
    using 4 scan_while_ge [of "Suc i" isdigit path] by simp
  with 4 show ?case by (auto simp: not_le)
qed

declare path_parts_from.simps [simp del]

text \<open>
  The second loop of \<^verbatim>\<open>set_path\<close>, over the parts still to walk, \<^verbatim>\<open>is_last\<close> being
  \<open>rest = []\<close>. The code mutates the tree in place and may throw half-way, so the model
  returns the value \<^verbatim>\<open>current\<close> points to as the loop leaves it together with the exception,
  if any. An index comes from \<open>stoi\<close> on digits and is never negative.
\<close>

fun set_path_walk :: "(string \<times> int) list \<Rightarrow> JSON \<Rightarrow> JSON \<Rightarrow> JSON \<times> error option" where
  "set_path_walk [] val current = (current, None)"
| "set_path_walk ((key, index) # rest) val current =
     (if index = - 1 then
        (case (if is_null current then JObject [] else current) of
           JObject obj \<Rightarrow>
             if rest = [] then (JObject (map_assign obj key val), None)
             else (case map_subscript JNull obj key of
                     (child, obj') \<Rightarrow>
                       (case set_path_walk rest val child of
                          (child', err) \<Rightarrow> (JObject (map_assign obj' key child'), err)))
         | other \<Rightarrow> (other, Some (JSONParseError ''Expected object in path'')))
      else
        (case (if is_null current then JArray [] else current) of
           JArray arr0 \<Rightarrow>
             (let arr = (if length arr0 \<le> nat index then resize arr0 (nat index + 1) else arr0)
              in if rest = [] then (JArray (arr[nat index := val]), None)
                 else (case set_path_walk rest val (arr ! nat index) of
                         (child', err) \<Rightarrow> (JArray (arr[nat index := child']), err)))
         | other \<Rightarrow> (other, Some (JSONParseError ''Expected array in path''))))"

definition set_path :: "JSON \<Rightarrow> string \<Rightarrow> JSON \<Rightarrow> JSON \<times> error option" where
  "set_path this path val =
     (case path_parts_from path 0 [] of
        Inl e \<Rightarrow> (this, Some e)
      | Inr path_parts \<Rightarrow> set_path_walk path_parts val this)"

text \<open>
  The reading of a path as the specification words it, over the parts that the first loop
  of \<^verbatim>\<open>set_path\<close> cuts the path into: a best-effort walk that gives Null as soon as a
  segment is absent, out of range or applied to a value of the wrong variant. It is compared
  with \<open>at_path\<close> below.
\<close>

fun read_parts :: "(string \<times> int) list \<Rightarrow> JSON \<Rightarrow> JSON" where
  "read_parts [] current = current"
| "read_parts ((key, index) # rest) current =
     (if index = - 1 then
        (case current of
           JObject obj \<Rightarrow> (case map_find obj key of None \<Rightarrow> JNull | Some v \<Rightarrow> read_parts rest v)
         | _ \<Rightarrow> JNull)
      else
        (case current of
           JArray arr \<Rightarrow>
             if index < 0 \<or> length arr \<le> nat index then JNull else read_parts rest (arr ! nat index)
         | _ \<Rightarrow> JNull))"

text \<open>
  \<open>path_parts_pushed path i\<close> is what the first loop of \<^verbatim>\<open>set_path\<close>, started at the cursor
  \<open>i\<close>, has pushed on \<^verbatim>\<open>path_parts\<close> when it ends, whether at the end of the path or at the
  position where it throws: the segments in front of the malformed position.
\<close>

function path_parts_pushed :: "string \<Rightarrow> nat \<Rightarrow> (string \<times> int) list" where
  "path_parts_pushed path i =
     (if i < length path then
        if path ! i = CHR ''.'' then path_parts_pushed path (Suc i)
        else if isalpha (path ! i) \<or> path ! i = CHR ''_'' then
          (let i' = scan_while (\<lambda>c. isalnum c \<or> c = CHR ''_'') path i
           in (substr path i (i' - i), - 1) # path_parts_pushed path i')
        else if path ! i = CHR ''['' then
          (let start = Suc i;
               i' = scan_while isdigit path start
           in if length path \<le> i' \<or> path ! i' \<noteq> CHR '']'' then []
              else case stoi 10 (substr path start (i' - start)) of
                     Inl e \<Rightarrow> []
                   | Inr idx \<Rightarrow> ([], idx) # path_parts_pushed path (Suc i'))
        else []
      else [])"
  by pat_completeness auto
termination
proof (relation "measure (\<lambda>(path, i). length path - i)", goal_cases)
  case 1
  show ?case by simp
next
  case (2 path i)
  then show ?case by simp
next
  case (3 path i i')
  have "isalnum (path ! i) \<or> path ! i = CHR ''_''"
    using 3 by (auto simp: isalnum_def)
  with 3 have "i < i'"
    using scan_while_gt [of i path "\<lambda>c. isalnum c \<or> c = CHR ''_''"] by simp
  with 3 show ?case by simp
next
  case (4 path i start i' idx)
  have "Suc i \<le> i'"
    using 4 scan_while_ge [of "Suc i" isdigit path] by simp
  with 4 show ?case by (auto simp: not_le)
qed

declare path_parts_pushed.simps [simp del]

text \<open>
  A list of segments resolves in a value when the walk finds every one of them: each key is
  present in an Object, each index is within an Array.
\<close>

fun resolves :: "(string \<times> int) list \<Rightarrow> JSON \<Rightarrow> bool" where
  "resolves [] current = True"
| "resolves ((key, index) # rest) current =
     (if index = - 1 then
        (case current of
           JObject obj \<Rightarrow> (case map_find obj key of None \<Rightarrow> False | Some v \<Rightarrow> resolves rest v)
         | _ \<Rightarrow> False)
      else
        (case current of
           JArray arr \<Rightarrow> \<not> (index < 0 \<or> length arr \<le> nat index) \<and> resolves rest (arr ! nat index)
         | _ \<Rightarrow> False))"

section \<open>The JSON parser\<close>

text \<open>
  Each parsing function takes the text and the cursor \<^verbatim>\<open>idx\<close> and returns the value with the
  new cursor, or the exception thrown. \<^verbatim>\<open>JSON::parse\<close> catches every exception and throws a
  \<^verbatim>\<open>JSONParseError\<close> whose text holds the cursor and the caught message; the model keeps
  the message of the inner throw only.
\<close>

definition encode_utf8 :: "string \<Rightarrow> int \<Rightarrow> string" where
  "encode_utf8 res codepoint =
     (if codepoint \<le> 0x7F then res @ [char_of codepoint]
      else if codepoint \<le> 0x7FF then
        res @ [char_of (0xC0 OR drop_bit 6 codepoint), char_of (0x80 OR (codepoint AND 0x3F))]
      else if codepoint \<le> 0xFFFF then
        res @ [char_of (0xE0 OR drop_bit 12 codepoint),
               char_of (0x80 OR (drop_bit 6 codepoint AND 0x3F)),
               char_of (0x80 OR (codepoint AND 0x3F))]
      else if codepoint \<le> 0x10FFFF then
        res @ [char_of (0xF0 OR drop_bit 18 codepoint),
               char_of (0x80 OR (drop_bit 12 codepoint AND 0x3F)),
               char_of (0x80 OR (drop_bit 6 codepoint AND 0x3F)),
               char_of (0x80 OR (codepoint AND 0x3F))]
      else res)"

definition parse_null :: "string \<Rightarrow> nat \<Rightarrow> error + JSON \<times> nat" where
  "parse_null s idx =
     (if length s < idx + 4 \<or> substr s idx 4 \<noteq> ''null'' then Inl (JSONParseError ''Invalid null'')
      else Inr (JNull, idx + 4))"

definition parse_bool :: "string \<Rightarrow> nat \<Rightarrow> error + JSON \<times> nat" where
  "parse_bool s idx =
     (if idx + 4 \<le> length s \<and> substr s idx 4 = ''true'' then Inr (JBool True, idx + 4)
      else if idx + 5 \<le> length s \<and> substr s idx 5 = ''false'' then Inr (JBool False, idx + 5)
      else Inl (JSONParseError ''Invalid boolean''))"

definition parse_number :: "string \<Rightarrow> nat \<Rightarrow> error + JSON \<times> nat" where
  "parse_number s start =
     (let idx1 = (if char_at s start = CHR ''-'' then start + 1 else start)
      in if length s \<le> idx1 \<or> \<not> isdigit (s ! idx1) then Inl (JSONParseError ''Invalid number'')
         else
           let idx2 = (if s ! idx1 = CHR ''0'' then idx1 + 1 else scan_while isdigit s idx1)
           in if idx2 < length s \<and> s ! idx2 = CHR ''.''
                 \<and> (length s \<le> idx2 + 1 \<or> \<not> isdigit (s ! (idx2 + 1)))
              then Inl (JSONParseError ''Invalid number: missing digits after decimal point'')
              else
                let idx3 = (if idx2 < length s \<and> s ! idx2 = CHR ''.''
                            then scan_while isdigit s (idx2 + 1) else idx2);
                    has_exp = (idx3 < length s \<and> (s ! idx3 = CHR ''e'' \<or> s ! idx3 = CHR ''E''));
                    idx4 = (if has_exp \<and> idx3 + 1 < length s
                               \<and> (s ! (idx3 + 1) = CHR ''+'' \<or> s ! (idx3 + 1) = CHR ''-'')
                            then idx3 + 2 else idx3 + 1)
                in if has_exp \<and> (length s \<le> idx4 \<or> \<not> isdigit (s ! idx4))
                   then Inl (JSONParseError ''Invalid number: missing digits in exponent'')
                   else
                     let idx5 = (if has_exp then scan_while isdigit s idx4 else idx3)
                     in case stod (substr s start (idx5 - start)) of
                          Inl e \<Rightarrow> Inl (JSONParseError ''Invalid number format'')
                        | Inr num \<Rightarrow> Inr (JNumber num, idx5))"

text \<open>
  The body of the \<^verbatim>\<open>try\<close> block of the escape \<^verbatim>\<open>\u\<close>, from the cursor after the \<^verbatim>\<open>u\<close>:
  the code point and the new cursor. The caller has checked \<open>idx + 4 \<le> length s\<close>.
\<close>

definition unicode_escape :: "string \<Rightarrow> nat \<Rightarrow> error + int \<times> nat" where
  "unicode_escape s idx0 =
     (case stoi 16 (substr s idx0 4) of
        Inl e \<Rightarrow> Inl e
      | Inr codepoint \<Rightarrow>
          (let idx = idx0 + 4
           in if 0xD800 \<le> codepoint \<and> codepoint \<le> 0xDBFF then
                if length s < idx + 6 \<or> substr s idx 2 \<noteq> [CHR 0x5C, CHR ''u'']
                then Inl (JSONParseError
                  ''Invalid surrogate pair: high surrogate not followed by low surrogate escape'')
                else (case stoi 16 (substr s (idx + 2) 4) of
                        Inl e \<Rightarrow> Inl e
                      | Inr low_surrogate \<Rightarrow>
                          if low_surrogate < 0xDC00 \<or> 0xDFFF < low_surrogate
                          then Inl (JSONParseError
                            ''Invalid surrogate pair: high surrogate not followed by a low surrogate'')
                          else Inr (0x10000 + (push_bit 10 (codepoint - 0xD800)
                                                 OR (low_surrogate - 0xDC00)), idx + 6))
              else if 0xDC00 \<le> codepoint \<and> codepoint \<le> 0xDFFF then
                Inl (JSONParseError ''Invalid surrogate pair: low surrogate without high surrogate'')
              else Inr (codepoint, idx)))"

lemma unicode_escape_idx: "unicode_escape s idx = Inr (cp, idx') \<Longrightarrow> idx < idx'"
  by (auto simp: unicode_escape_def Let_def split: sum.splits if_splits)

lemma unicode_escape_le:
  "unicode_escape s idx = Inr (cp, idx') \<Longrightarrow> idx + 4 \<le> length s \<Longrightarrow> idx' \<le> length s"
  by (auto simp: unicode_escape_def Let_def split: sum.splits if_splits)

text \<open>
  One turn of the \<^verbatim>\<open>while\<close> loop of \<^verbatim>\<open>parse_string\<close>, entered with \<open>idx < length s\<close> and
  the decoded text \<open>res\<close>: the new cursor and text, with \<open>True\<close> when the turn ends in
  \<^verbatim>\<open>break\<close>.
\<close>

definition parse_string_body :: "string \<Rightarrow> nat \<Rightarrow> string \<Rightarrow> error + bool \<times> nat \<times> string" where
  "parse_string_body s idx res =
     (let c = s ! idx; idx1 = idx + 1
      in if c = CHR 0x22 then Inr (True, idx1, res)
         else if c = CHR 0x5C then
           if length s \<le> idx1
           then Inl (JSONParseError ''Invalid escape: unexpected end of string'')
           else
             (let esc = s ! idx1; idx2 = idx1 + 1
              in if esc = CHR 0x22 then Inr (False, idx2, res @ [CHR 0x22])
                 else if esc = CHR 0x5C then Inr (False, idx2, res @ [CHR 0x5C])
                 else if esc = CHR ''/'' then Inr (False, idx2, res @ [CHR ''/''])
                 else if esc = CHR ''b'' then Inr (False, idx2, res @ [CHR 0x08])
                 else if esc = CHR ''f'' then Inr (False, idx2, res @ [CHR 0x0C])
                 else if esc = CHR ''n'' then Inr (False, idx2, res @ [CHR 0x0A])
                 else if esc = CHR ''r'' then Inr (False, idx2, res @ [CHR 0x0D])
                 else if esc = CHR ''t'' then Inr (False, idx2, res @ [CHR 0x09])
                 else if esc = CHR ''u'' then
                   if length s < idx2 + 4 then Inl (JSONParseError ''Invalid unicode escape'')
                   else (case unicode_escape s idx2 of
                           Inl e \<Rightarrow> Inl (JSONParseError ''Invalid unicode escape sequence'')
                         | Inr (codepoint, idx3) \<Rightarrow> Inr (False, idx3, encode_utf8 res codepoint))
                 else Inl (JSONParseError (''Unknown escape sequence: '' @ [CHR 0x5C, esc])))
         else if char_val c < 32
         then Inl (JSONParseError ''Unescaped control character in string'')
         else Inr (False, idx1, res @ [c]))"

lemma parse_string_body_idx:
  assumes "parse_string_body s idx res = Inr (brk, idx', res')" and "idx < length s"
  shows "idx < idx' \<and> idx' \<le> length s"
proof (cases "s ! idx = CHR 0x5C")
  case False
  with assms show ?thesis
    by (auto simp: parse_string_body_def Let_def split: if_splits)
next
  case True
  show ?thesis
  proof (cases "s ! (idx + 1) = CHR ''u''")
    case u: True
    with True assms show ?thesis
      by (auto simp: parse_string_body_def Let_def split: if_splits sum.splits
          dest: unicode_escape_idx unicode_escape_le)
  next
    case False
    with True assms show ?thesis
      by (auto simp: parse_string_body_def Let_def split: if_splits)
  qed
qed

function parse_string_loop :: "string \<Rightarrow> nat \<Rightarrow> string \<Rightarrow> error + string \<times> nat" where
  "parse_string_loop s idx res =
     (if idx < length s then
        (case parse_string_body s idx res of
           Inl e \<Rightarrow> Inl e
         | Inr (brk, idx', res') \<Rightarrow>
             if brk then Inr (res', idx') else parse_string_loop s idx' res')
      else Inr (res, idx))"
  by pat_completeness auto
termination
  by (relation "measure (\<lambda>(s, idx, res). length s - idx)")
     (auto dest: parse_string_body_idx)

declare parse_string_loop.simps [simp del]

lemma parse_string_loop_idx:
  "parse_string_loop s i res = Inr (r, i') \<Longrightarrow> i \<le> length s \<Longrightarrow> i \<le> i' \<and> i' \<le> length s"
proof (induction s i res rule: parse_string_loop.induct)
  case (1 s idx res)
  show ?case
  proof (cases "idx < length s")
    case False
    with "1.prems" show ?thesis
      by (simp add: parse_string_loop.simps)
  next
    case True
    show ?thesis
    proof (cases "parse_string_body s idx res")
      case (Inl e)
      with True "1.prems" show ?thesis
        by (simp add: parse_string_loop.simps)
    next
      case (Inr p)
      obtain brk idx' res' where p: "p = (brk, idx', res')" by (cases p)
      from Inr p True have bound: "idx < idx' \<and> idx' \<le> length s"
        by (auto dest: parse_string_body_idx)
      show ?thesis
      proof (cases brk)
        case True
        with \<open>idx < length s\<close> Inr p "1.prems" bound show ?thesis
          by (auto simp: parse_string_loop.simps)
      next
        case False
        have "parse_string_loop s idx' res' = Inr (r, i')"
          using \<open>idx < length s\<close> Inr p False "1.prems"(1)
          by (simp add: parse_string_loop.simps)
        from "1.IH" [OF True Inr p [symmetric] refl False this] bound show ?thesis
          by simp
      qed
    qed
  qed
qed

definition parse_string :: "string \<Rightarrow> nat \<Rightarrow> error + JSON \<times> nat" where
  "parse_string s idx =
     (if char_at s idx \<noteq> CHR 0x22 then Inl (JSONParseError ''Expected string'')
      else case parse_string_loop s (idx + 1) [] of
             Inl e \<Rightarrow> Inl e
           | Inr (res, idx') \<Rightarrow>
               if length s < idx' then Inl (JSONParseError ''Unterminated string'')
               else Inr (JString res, idx'))"

text \<open>
  \<^verbatim>\<open>parse_value\<close>, \<^verbatim>\<open>parse_array\<close> and \<^verbatim>\<open>parse_object\<close> call one another. The first
  argument is fuel: every call of \<open>parse_value\<close> and every turn of a loop takes one unit,
  and \<open>None\<close> is the fuel running out. \<open>parse\<close> gives the recursion more fuel than it can
  use (lemma \<open>parse_returns\<close>).
\<close>

function (sequential) parse_value :: "nat \<Rightarrow> string \<Rightarrow> nat \<Rightarrow> (error + JSON \<times> nat) option"
  and parse_array :: "nat \<Rightarrow> string \<Rightarrow> nat \<Rightarrow> (error + JSON \<times> nat) option"
  and parse_array_loop :: "nat \<Rightarrow> string \<Rightarrow> nat \<Rightarrow> JSON list \<Rightarrow> (error + JSON \<times> nat) option"
  and parse_object :: "nat \<Rightarrow> string \<Rightarrow> nat \<Rightarrow> (error + JSON \<times> nat) option"
  and parse_object_loop ::
    "nat \<Rightarrow> string \<Rightarrow> nat \<Rightarrow> (string \<times> JSON) list \<Rightarrow> (error + JSON \<times> nat) option"
where
  "parse_value 0 s idx0 = None"
| "parse_value (Suc fuel) s idx0 =
     (let idx = skip_ws s idx0
      in if length s \<le> idx then Some (Inl (JSONParseError ''Unexpected end of input''))
         else
           let c = s ! idx
           in if c = CHR ''n'' then Some (parse_null s idx)
              else if c = CHR ''t'' \<or> c = CHR ''f'' then Some (parse_bool s idx)
              else if c = CHR 0x22 then Some (parse_string s idx)
              else if c = CHR ''['' then parse_array fuel s idx
              else if c = CHR ''{'' then parse_object fuel s idx
              else if c = CHR ''-'' \<or> isdigit c then Some (parse_number s idx)
              else Some (Inl (JSONParseError (''Unexpected character: '' @ [c]))))"
| "parse_array fuel s idx0 =
     (if char_at s idx0 \<noteq> CHR ''['' then Some (Inl (JSONParseError (''Expected '' @ [CHR 0x27, CHR ''['', CHR 0x27])))
      else
        let idx = skip_ws s (idx0 + 1)
        in if idx < length s \<and> s ! idx = CHR '']'' then Some (Inr (JArray [], idx + 1))
           else parse_array_loop fuel s idx [])"
| "parse_array_loop 0 s idx arr = None"
| "parse_array_loop (Suc fuel) s idx arr =
     (case parse_value fuel s idx of
        None \<Rightarrow> None
      | Some (Inl e) \<Rightarrow> Some (Inl e)
      | Some (Inr (el, idx1)) \<Rightarrow>
          (let arr' = arr @ [el]; idx2 = skip_ws s idx1
           in if length s \<le> idx2 then Some (Inl (JSONParseError (''Expected '' @ [CHR 0x27, CHR '','', CHR 0x27] @ '' or '' @ [CHR 0x27, CHR '']'', CHR 0x27])))
              else if s ! idx2 = CHR '','' then parse_array_loop fuel s (skip_ws s (idx2 + 1)) arr'
              else if s ! idx2 = CHR '']'' then Some (Inr (JArray arr', idx2 + 1))
              else Some (Inl (JSONParseError (''Unexpected character in array: '' @ [s ! idx2])))))"
| "parse_object fuel s idx0 =
     (if char_at s idx0 \<noteq> CHR ''{'' then Some (Inl (JSONParseError (''Expected '' @ [CHR 0x27, CHR ''{'', CHR 0x27])))
      else
        let idx = skip_ws s (idx0 + 1)
        in if idx < length s \<and> s ! idx = CHR ''}'' then Some (Inr (JObject [], idx + 1))
           else parse_object_loop fuel s idx [])"
| "parse_object_loop 0 s idx obj = None"
| "parse_object_loop (Suc fuel) s idx0 obj =
     (let idx = skip_ws s idx0
      in if length s \<le> idx \<or> s ! idx \<noteq> CHR 0x22
         then Some (Inl (JSONParseError ''Expected string key in object''))
         else
           (case parse_string s idx of
              Inl e \<Rightarrow> Some (Inl e)
            | Inr (key, idx1) \<Rightarrow>
                (let idx2 = skip_ws s idx1
                 in if length s \<le> idx2 \<or> s ! idx2 \<noteq> CHR '':''
                    then Some (Inl (JSONParseError (''Expected '' @ [CHR 0x27, CHR '':'', CHR 0x27] @ '' after key in object'')))
                    else
                      (case parse_value fuel s (idx2 + 1) of
                         None \<Rightarrow> None
                       | Some (Inl e) \<Rightarrow> Some (Inl e)
                       | Some (Inr (val, idx3)) \<Rightarrow>
                           (case key of
                              JString k \<Rightarrow>
                                (let obj' = map_assign obj k val; idx4 = skip_ws s idx3
                                 in if length s \<le> idx4
                                    then Some (Inl (JSONParseError (''Expected '' @ [CHR 0x27, CHR '','', CHR 0x27] @ '' or '' @ [CHR 0x27, CHR ''}'', CHR 0x27] @ '' in object'')))
                                    else if s ! idx4 = CHR '',''
                                    then parse_object_loop fuel s (skip_ws s (idx4 + 1)) obj'
                                    else if s ! idx4 = CHR ''}''
                                    then Some (Inr (JObject obj', idx4 + 1))
                                    else Some (Inl (JSONParseError
                                      (''Unexpected character in object: '' @ [s ! idx4]))))
                            | _ \<Rightarrow> Some (Inl (JSONParseError ''Not a string'')))))))"

  by pat_completeness auto
termination
  by (relation "measure (\<lambda>x. case x of
          Inl (Inl (fuel, _)) \<Rightarrow> 2 * fuel
        | Inl (Inr (fuel, _)) \<Rightarrow> 2 * fuel + 1
        | Inr (Inl (fuel, _)) \<Rightarrow> 2 * fuel
        | Inr (Inr (Inl (fuel, _))) \<Rightarrow> 2 * fuel + 1
        | Inr (Inr (Inr (fuel, _))) \<Rightarrow> 2 * fuel)")
     simp_all

declare parse_value.simps [simp del] parse_array.simps [simp del] parse_array_loop.simps [simp del]
  parse_object.simps [simp del] parse_object_loop.simps [simp del]

definition parse :: "string \<Rightarrow> (error + JSON) option" where
  "parse s =
     (case parse_value (2 * length s + 1) s 0 of
        None \<Rightarrow> None
      | Some (Inl e) \<Rightarrow> Some (Inl e)
      | Some (Inr (result, idx)) \<Rightarrow>
          (let idx' = skip_ws s idx
           in if idx' < length s
              then Some (Inl (JSONParseError ''Extra characters after JSON''))
              else Some (Inr result)))"

text \<open>
  The low surrogate that the text \<open>rest\<close> starts with, if it starts with one: the escape
  \<^verbatim>\<open>\u\<close> and four characters that \<^verbatim>\<open>std::stoi\<close> reads in base 16 as a number from
  \<open>0xDC00\<close> to \<open>0xDFFF\<close>. A high surrogate is lone when no low surrogate follows it.
\<close>

definition low_surrogate :: "string \<Rightarrow> int option" where
  "low_surrogate rest =
     (if 6 \<le> length rest \<and> take 2 rest = [CHR 0x5C, CHR ''u''] then
        (case stoi 16 (take 4 (drop 2 rest)) of
           Inl e \<Rightarrow> None
         | Inr low \<Rightarrow> if 0xDC00 \<le> low \<and> low \<le> 0xDFFF then Some low else None)
      else None)"

section \<open>The JSON serializer\<close>

text \<open>The decimal digits of a natural number, and \<^verbatim>\<open>operator<<\<close> for a \<^verbatim>\<open>long long\<close>.\<close>

function digits10 :: "nat \<Rightarrow> string" where
  "digits10 n =
     (if n < 10 then [''0123456789'' ! n] else digits10 (n div 10) @ [''0123456789'' ! (n mod 10)])"
  by pat_completeness auto
termination
  by (relation "measure id") auto

declare digits10.simps [simp del]

definition to_string :: "int \<Rightarrow> string" where
  "to_string i = (if i < 0 then CHR ''-'' # digits10 (nat (- i)) else digits10 (nat i))"

text \<open>
  The conversions between \<^verbatim>\<open>long long\<close> and \<^verbatim>\<open>double\<close>. A \<^verbatim>\<open>long long\<close> converts to the
  nearest double. \<^verbatim>\<open>static_cast<long long>(num)\<close> truncates toward zero; out of the range of
  \<^verbatim>\<open>long long\<close> it is undefined in C++ and gives \<^verbatim>\<open>LLONG_MIN\<close> on x86-64, which the model
  follows. \<open>double_le\<close> is \<^verbatim>\<open><=\<close> on doubles.
\<close>

definition LLONG_MIN :: int where
  "LLONG_MIN = - (2 ^ 63)"

definition LLONG_MAX :: int where
  "LLONG_MAX = 2 ^ 63 - 1"

definition double_of_int :: "int \<Rightarrow> double" where
  "double_of_int n = (case round_binary64 (n < 0) \<bar>n\<bar> 1 of Some num \<Rightarrow> num | None \<Rightarrow> Double 0 0)"

definition to_long_long :: "double \<Rightarrow> int" where
  "to_long_long num =
     (let t = (if 0 \<le> expo num then mant num * 2 ^ nat (expo num)
               else sgn (mant num) * (\<bar>mant num\<bar> div 2 ^ nat (- expo num)))
      in if LLONG_MIN \<le> t \<and> t \<le> LLONG_MAX then t else LLONG_MIN)"

definition double_le :: "double \<Rightarrow> double \<Rightarrow> bool" where
  "double_le a b =
     (let e = min (expo a) (expo b)
      in mant a * 2 ^ nat (expo a - e) \<le> mant b * 2 ^ nat (expo b - e))"

text \<open>
  \<^verbatim>\<open>oss << std::setprecision(p) << num\<close> with the float field unset is \<^verbatim>\<open>printf("%.*g", p, num)\<close>:
  the value is rounded to \<open>P\<close> significant decimal digits (\<open>P\<close> is \<open>p\<close>, or 1 when \<open>p\<close> is 0),
  ties to even, which gives the decimal exponent \<open>X\<close>; for \<open>- 4 \<le> X < P\<close> the digits are
  written in fixed notation, otherwise with an exponent of at least two digits; trailing
  zeros of the fraction, and a point with no fraction, are dropped.
\<close>

definition dec_exponent :: "int \<Rightarrow> int \<Rightarrow> int" where
  "dec_exponent n d =
     (if d \<le> n then int (length (digits10 (nat (n div d)))) - 1
      else let j = length (digits10 (nat (d div n))) - 1
           in if d = n * 10 ^ j then - int j else - int j - 1)"

definition dec_round :: "nat \<Rightarrow> int \<Rightarrow> int \<Rightarrow> int \<Rightarrow> int" where
  "dec_round P X n d =
     (if X \<le> int P - 1 then div_half_even (n * 10 ^ nat (int P - 1 - X)) d
      else div_half_even n (d * 10 ^ nat (X - int P + 1)))"

definition strip_zeros :: "string \<Rightarrow> string" where
  "strip_zeros fr = rev (dropWhile (\<lambda>c. c = CHR ''0'') (rev fr))"

definition with_point :: "string \<Rightarrow> string \<Rightarrow> string" where
  "with_point ip fr = (if strip_zeros fr = [] then ip else ip @ CHR ''.'' # strip_zeros fr)"

definition fmt_g :: "nat \<Rightarrow> double \<Rightarrow> string" where
  "fmt_g p num =
     (if mant num = 0 then ''0''
      else
        let P = (if p = 0 then 1 else p);
            n = (if 0 \<le> expo num then \<bar>mant num\<bar> * 2 ^ nat (expo num) else \<bar>mant num\<bar>);
            d = (if 0 \<le> expo num then 1 else 2 ^ nat (- expo num));
            X0 = dec_exponent n d;
            m0 = dec_round P X0 n d;
            X = (if 10 ^ P \<le> m0 then X0 + 1 else X0);
            ds = digits10 (nat (if 10 ^ P \<le> m0 then m0 div 10 else m0));
            body =
              (if - 4 \<le> X \<and> X < int P then
                 if 0 \<le> X then with_point (take (nat X + 1) ds) (drop (nat X + 1) ds)
                 else with_point ''0'' (replicate (nat (- X - 1)) CHR ''0'' @ ds)
               else
                 with_point (take 1 ds) (drop 1 ds)
                 @ CHR ''e'' # (if X < 0 then CHR ''-'' else CHR ''+'')
                 # (if \<bar>X\<bar> < 10 then ''0'' else []) @ digits10 (nat \<bar>X\<bar>))
        in if mant num < 0 then CHR ''-'' # body else body)"

definition dump_number :: "nat \<Rightarrow> double \<Rightarrow> string" where
  "dump_number max_precision num =
     (if num = double_of_int (to_long_long num)
         \<and> double_le (double_of_int LLONG_MIN) num \<and> double_le num (double_of_int LLONG_MAX)
      then to_string (to_long_long num)
      else fmt_g max_precision num)"

text \<open>
  One character of a string value. \<^verbatim>\<open>static_cast<int>(c)\<close> of a negative \<^verbatim>\<open>char\<close> is
  negative and \<^verbatim>\<open>std::hex\<close> prints it as the 32-bit unsigned number, eight digits; the
  width 4 is a minimum.
\<close>

function hex_digits :: "nat \<Rightarrow> string" where
  "hex_digits n =
     (if n < 16 then [''0123456789abcdef'' ! n]
      else hex_digits (n div 16) @ [''0123456789abcdef'' ! (n mod 16)])"
  by pat_completeness auto
termination
  by (relation "measure id") auto

declare hex_digits.simps [simp del]

definition hex4 :: "int \<Rightarrow> string" where
  "hex4 i =
     (let h = hex_digits (nat (if i < 0 then i + 2 ^ 32 else i))
      in replicate (4 - length h) CHR ''0'' @ h)"

definition dump_char :: "char \<Rightarrow> string" where
  "dump_char c =
     (if c = CHR 0x22 then [CHR 0x5C, CHR 0x22]
      else if c = CHR 0x5C then [CHR 0x5C, CHR 0x5C]
      else if c = CHR 0x08 then [CHR 0x5C, CHR ''b'']
      else if c = CHR 0x0C then [CHR 0x5C, CHR ''f'']
      else if c = CHR 0x0A then [CHR 0x5C, CHR ''n'']
      else if c = CHR 0x0D then [CHR 0x5C, CHR ''r'']
      else if c = CHR 0x09 then [CHR 0x5C, CHR ''t'']
      else if char_val c < 32 \<or> c = CHR 0x7F then [CHR 0x5C, CHR ''u''] @ hex4 (char_val c)
      else [c])"

definition dump_string :: "string \<Rightarrow> string" where
  "dump_string str = CHR 0x22 # concat (map dump_char str) @ [CHR 0x22]"

text \<open>
  \<^verbatim>\<open>dump(pretty, indent, indent_size, max_precision)\<close>; the receiver is the last argument.
  The two \<^verbatim>\<open>for\<close> loops run over the elements and the members still to write, with the flag
  \<^verbatim>\<open>first\<close>. The indents are not negative. A key is written between quotes as it is.
\<close>

fun dump :: "bool \<Rightarrow> nat \<Rightarrow> nat \<Rightarrow> nat \<Rightarrow> JSON \<Rightarrow> string"
  and dump_elements :: "bool \<Rightarrow> nat \<Rightarrow> nat \<Rightarrow> nat \<Rightarrow> bool \<Rightarrow> JSON list \<Rightarrow> string"
  and dump_members :: "bool \<Rightarrow> nat \<Rightarrow> nat \<Rightarrow> nat \<Rightarrow> bool \<Rightarrow> (string \<times> JSON) list \<Rightarrow> string"
where
  "dump pretty indent indent_size max_precision JNull = ''null''"
| "dump pretty indent indent_size max_precision (JBool b) = (if b then ''true'' else ''false'')"
| "dump pretty indent indent_size max_precision (JNumber num) = dump_number max_precision num"
| "dump pretty indent indent_size max_precision (JString str) = dump_string str"
| "dump pretty indent indent_size max_precision (JArray arr) =
     ''['' @ dump_elements pretty indent indent_size max_precision True arr
     @ (if pretty \<and> arr \<noteq> [] then CHR 0x0A # replicate indent CHR '' '' else [])
     @ '']''"
| "dump pretty indent indent_size max_precision (JObject obj) =
     ''{'' @ dump_members pretty indent indent_size max_precision True obj
     @ (if pretty \<and> obj \<noteq> [] then CHR 0x0A # replicate indent CHR '' '' else [])
     @ ''}''"
| "dump_elements pretty indent indent_size max_precision first [] = []"
| "dump_elements pretty indent indent_size max_precision first (el # els) =
     (if \<not> first then '','' else [])
     @ (if pretty then CHR 0x0A # replicate (indent + indent_size) CHR '' '' else [])
     @ dump pretty (indent + indent_size) indent_size max_precision el
     @ dump_elements pretty indent indent_size max_precision False els"
| "dump_members pretty indent indent_size max_precision first [] = []"
| "dump_members pretty indent indent_size max_precision first ((k, v) # kvs) =
     (if \<not> first then '','' else [])
     @ (if pretty then CHR 0x0A # replicate (indent + indent_size) CHR '' '' else [])
     @ CHR 0x22 # k @ [CHR 0x22, CHR '':''] @ (if pretty then '' '' else [])
     @ dump pretty (indent + indent_size) indent_size max_precision v
     @ dump_members pretty indent indent_size max_precision False kvs"

text \<open>\<^verbatim>\<open>dump()\<close> with its default arguments, the compact form, which is also \<^verbatim>\<open>dump_minified\<close>.\<close>

definition dump_minified :: "JSON \<Rightarrow> string" where
  "dump_minified v = dump False 0 2 6 v"

section \<open>Values that the compact text carries in full\<close>

text \<open>
  The values on which the round trip through \<open>dump\<close> and \<open>parse\<close> is studied. A character is
  plain when \<open>dump\<close> would write it unescaped inside a string: printable ASCII other than the
  quote and the backslash.
\<close>

definition plain_char :: "char \<Rightarrow> bool" where
  "plain_char c \<longleftrightarrow> 32 \<le> (of_char c :: nat) \<and> (of_char c :: nat) < 128 \<and> c \<noteq> CHR 0x22 \<and> c \<noteq> CHR 0x5C"






section \<open>Mutations of a JSON value\<close>

text \<open>\<^verbatim>\<open>keys()\<close>: the keys of an Object in the order of iteration of its map.\<close>

definition keys :: "JSON \<Rightarrow> string list" where
  "keys this = (case this of JObject obj \<Rightarrow> map fst obj | _ \<Rightarrow> [])"

text \<open>The constructor from an initializer list of pairs assigns them one by one.\<close>

definition JSON_of_pairs :: "(string \<times> JSON) list \<Rightarrow> JSON" where
  "JSON_of_pairs list = JObject (foldl (\<lambda>obj (k, v). map_assign obj k v) [] list)"

text \<open>
  The members that change their receiver, each as the receiver after the call, whether the call
  returns or throws: a call that throws leaves the receiver as it was. \<open>Assign x\<close> is the
  assignment \<^verbatim>\<open>= x\<close> to the receiver and \<open>Touch\<close> does nothing to it; they stand for what is
  done with a reference that \<^verbatim>\<open>operator[]\<close> returned.
\<close>

datatype mutation =
    Assign JSON
  | Touch
  | Erase_key string
  | Erase_index nat
  | Merge JSON
  | Clear
  | Push_back JSON
  | Push_front JSON
  | Pop_back
  | Insert nat JSON
  | Set_path string JSON

fun payload :: "mutation \<Rightarrow> JSON" where
  "payload (Assign x) = x"
| "payload (Merge x) = x"
| "payload (Push_back x) = x"
| "payload (Push_front x) = x"
| "payload (Insert i x) = x"
| "payload (Set_path p x) = x"
| "payload m = JNull"

fun apply_mutation :: "mutation \<Rightarrow> JSON \<Rightarrow> JSON" where
  "apply_mutation (Assign x) this = x"
| "apply_mutation Touch this = this"
| "apply_mutation (Erase_key key) this =
     (case this of JObject obj \<Rightarrow> JObject (map_erase obj key) | _ \<Rightarrow> this)"
| "apply_mutation (Erase_index index) this =
     (case this of
        JArray arr \<Rightarrow> if index \<ge> length arr then this else JArray (take index arr @ drop (index + 1) arr)
      | _ \<Rightarrow> this)"
| "apply_mutation (Merge other) this =
     (case (this, other) of
        (JObject obj, JObject other_obj) \<Rightarrow>
          JObject (foldl (\<lambda>obj (key, val). map_assign obj key val) obj other_obj)
      | _ \<Rightarrow> this)"
| "apply_mutation Clear this =
     (case this of JArray arr \<Rightarrow> JArray [] | JObject obj \<Rightarrow> JObject [] | _ \<Rightarrow> JNull)"
| "apply_mutation (Push_back item) this =
     (case (if is_null this then JArray [] else this) of
        JArray arr \<Rightarrow> JArray (arr @ [item])
      | other \<Rightarrow> other)"
| "apply_mutation (Push_front item) this =
     (case (if is_null this then JArray [] else this) of
        JArray arr \<Rightarrow> JArray (item # arr)
      | other \<Rightarrow> other)"
| "apply_mutation Pop_back this =
     (case this of JArray arr \<Rightarrow> if arr = [] then this else JArray (butlast arr) | _ \<Rightarrow> this)"
| "apply_mutation (Insert index item) this =
     (case this of
        JArray arr \<Rightarrow> if index > length arr then this else JArray (take index arr @ item # drop index arr)
      | _ \<Rightarrow> this)"
| "apply_mutation (Set_path path val) this = fst (set_path this path val)"

text \<open>
  A mutation of the value that a chain of mutable \<^verbatim>\<open>operator[]\<close> refers to, as in
  \<^verbatim>\<open>j["a"][2].push_back(x)\<close>. A step is a key or an index. The operator turns Null into an
  empty Object or Array, creates the entry that is missing, and throws on a value of another
  variant, which ends the chain.
\<close>

fun mutate_at :: "(string + nat) list \<Rightarrow> mutation \<Rightarrow> JSON \<Rightarrow> JSON" where
  "mutate_at [] m this = apply_mutation m this"
| "mutate_at (Inl key # steps) m this =
     (case (if is_null this then JObject [] else this) of
        JObject obj \<Rightarrow>
          (case map_subscript JNull obj key of
             (child, obj') \<Rightarrow> JObject (map_assign obj' key (mutate_at steps m child)))
      | other \<Rightarrow> other)"
| "mutate_at (Inr idx # steps) m this =
     (case (if is_null this then JArray [] else this) of
        JArray arr0 \<Rightarrow>
          (let arr = (if idx \<ge> length arr0 then resize arr0 (idx + 1) else arr0)
           in JArray (arr[idx := mutate_at steps m (arr ! idx)]))
      | other \<Rightarrow> other)"

text \<open>The keys of every Object in a value are in ascending order, each once.\<close>

fun sorted_keys :: "JSON \<Rightarrow> bool" where
  "sorted_keys JNull = True"
| "sorted_keys (JBool b) = True"
| "sorted_keys (JNumber num) = True"
| "sorted_keys (JString str) = True"
| "sorted_keys (JArray arr) = (\<forall>v \<in> set arr. sorted_keys v)"
| "sorted_keys (JObject obj) =
     (sorted_wrt (<) (map fst obj) \<and> (\<forall>kv \<in> set obj. sorted_keys (snd kv)))"

text \<open>
  The text of one member of an Object in the output of \<open>dump\<close>, with the comma that
  separates it from the member before.
\<close>

definition member_text :: "bool \<Rightarrow> nat \<Rightarrow> nat \<Rightarrow> nat \<Rightarrow> string \<times> JSON \<Rightarrow> string" where
  "member_text pretty indent indent_size max_precision kv =
     '','' @ (if pretty then CHR 0x0A # replicate (indent + indent_size) CHR '' '' else [])
     @ CHR 0x22 # fst kv @ [CHR 0x22, CHR '':''] @ (if pretty then '' '' else [])
     @ dump pretty (indent + indent_size) indent_size max_precision (snd kv)"

section \<open>The XML node (\<^verbatim>\<open>src/e-xml.h\<close>)\<close>

text \<open>
  \<^verbatim>\<open>struct Node\<close>: a tag name, the text content, the attributes (a \<^verbatim>\<open>std::map\<close> from string to
  string, here the list of its entries in key order, with the operations of the JSON objects)
  and the vector of the children.
\<close>

datatype Node = Node (name: string) (text_content: string)
  (attributes: "(string \<times> string) list") (child_nodes: "Node list")

text \<open>The constructor \<^verbatim>\<open>Node(name)\<close>.\<close>

definition new_node :: "string \<Rightarrow> Node" where
  "new_node nm = Node nm [] [] []"

definition set_attribute :: "Node \<Rightarrow> string \<Rightarrow> string \<Rightarrow> Node" where
  "set_attribute n key val =
     Node (name n) (text_content n) (map_assign (attributes n) key val) (child_nodes n)"

definition remove_attribute :: "Node \<Rightarrow> string \<Rightarrow> Node" where
  "remove_attribute n key =
     Node (name n) (text_content n) (map_erase (attributes n) key) (child_nodes n)"

definition set_text :: "Node \<Rightarrow> string \<Rightarrow> Node" where
  "set_text n text = Node (name n) text (attributes n) (child_nodes n)"

definition add_child :: "Node \<Rightarrow> Node \<Rightarrow> Node" where
  "add_child n child = Node (name n) (text_content n) (attributes n) (child_nodes n @ [child])"

text \<open>\<^verbatim>\<open>text_content += t\<close>, as the parser does.\<close>

definition add_text :: "Node \<Rightarrow> string \<Rightarrow> Node" where
  "add_text n t = Node (name n) (text_content n @ t) (attributes n) (child_nodes n)"

definition clear :: "Node \<Rightarrow> Node" where
  "clear n = Node (name n) [] [] []"

text \<open>
  The loop of both \<^verbatim>\<open>operator[]\<close>: the position of the first child with the given name.
\<close>

fun find_child :: "Node list \<Rightarrow> string \<Rightarrow> nat option" where
  "find_child [] child_name = None"
| "find_child (child # rest) child_name =
     (if name child = child_name then Some 0 else map_option Suc (find_child rest child_name))"

text \<open>
  The mutable \<^verbatim>\<open>operator[]\<close> returns a reference into the node, which it may have extended:
  the node after the call and the position of the child referred to.
\<close>

definition operator_subscript :: "Node \<Rightarrow> string \<Rightarrow> Node \<times> nat" where
  "operator_subscript n child_name =
     (case find_child (child_nodes n) child_name of
        Some i \<Rightarrow> (n, i)
      | None \<Rightarrow> (add_child n (new_node child_name), length (child_nodes n)))"

text \<open>The \<^verbatim>\<open>const\<close> overload returns the child or throws.\<close>

definition operator_subscript_const :: "Node \<Rightarrow> string \<Rightarrow> error + Node" where
  "operator_subscript_const n child_name =
     (case find_child (child_nodes n) child_name of
        Some i \<Rightarrow> Inr (child_nodes n ! i)
      | None \<Rightarrow> Inl (XMLParseError (''Child node not found: '' @ child_name)))"

subsection \<open>Serializer\<close>

definition encode_char :: "char \<Rightarrow> string" where
  "encode_char c =
     (if c = CHR ''<'' then ''&lt;''
      else if c = CHR ''>'' then ''&gt;''
      else if c = CHR ''&'' then ''&amp;''
      else if c = CHR 0x22 then ''&quot;''
      else if c = CHR 0x27 then ''&apos;''
      else [c])"

definition encode_text :: "string \<Rightarrow> string" where
  "encode_text text = concat (map encode_char text)"

text \<open>The loop over the attributes, in the order of the map.\<close>

fun dump_attributes :: "(string \<times> string) list \<Rightarrow> string" where
  "dump_attributes [] = []"
| "dump_attributes ((k, v) # rest) =
     '' '' @ k @ [CHR ''='', CHR 0x22] @ encode_text v @ [CHR 0x22] @ dump_attributes rest"

text \<open>
  \<^verbatim>\<open>dump_recursive(oss, pretty, indent_level, indent_size)\<close> returns what it appends to the
  stream; the receiver is the last argument. The two indent parameters are not negative.
\<close>

fun dump_recursive :: "bool \<Rightarrow> nat \<Rightarrow> nat \<Rightarrow> Node \<Rightarrow> string" where
  "dump_recursive pretty indent_level indent_size (Node nm text attrs children) =
     (let indent = (if pretty then replicate (indent_level * indent_size) CHR '' '' else []);
          opening = indent @ ''<'' @ nm @ dump_attributes attrs;
          is_empty = (text = [] \<and> children = [])
      in if is_empty then opening @ '' />'' @ (if pretty then [CHR 0x0A] else [])
         else
           let has_children = (children \<noteq> [])
           in opening @ ''>''
              @ (if pretty \<and> has_children then [CHR 0x0A] else [])
              @ (if text \<noteq> [] then
                   (if pretty \<and> has_children
                    then replicate ((indent_level + 1) * indent_size) CHR '' '' else [])
                   @ encode_text text
                   @ (if pretty \<and> has_children then [CHR 0x0A] else [])
                 else [])
              @ concat (map (dump_recursive pretty (indent_level + 1) indent_size) children)
              @ (if pretty \<and> has_children then indent else [])
              @ ''</'' @ nm @ ''>'' @ (if pretty then [CHR 0x0A] else []))"

text \<open>\<^verbatim>\<open>Node::dump(pretty = true, indent_level = 0, indent_size = 2)\<close>.\<close>

definition xml_dump :: "bool \<Rightarrow> nat \<Rightarrow> nat \<Rightarrow> Node \<Rightarrow> string" where
  "xml_dump pretty indent_level indent_size n = dump_recursive pretty indent_level indent_size n"

subsection \<open>Parser\<close>

text \<open>\<^verbatim>\<open>s.find(c, pos)\<close>, with \<open>None\<close> for \<^verbatim>\<open>npos\<close>.\<close>

definition find_char :: "string \<Rightarrow> char \<Rightarrow> nat \<Rightarrow> nat option" where
  "find_char s c pos =
     (let j = scan_while (\<lambda>x. x \<noteq> c) s pos in if j < length s then Some j else None)"

lemma find_char_ge: "find_char s c pos = Some j \<Longrightarrow> pos \<le> j \<and> j < length s"
  using scan_while_ge [of pos "\<lambda>x. x \<noteq> c" s]
  by (auto simp: find_char_def Let_def split: if_splits)

function skip_ws_and_prolog :: "string \<Rightarrow> nat \<Rightarrow> error + nat" where
  "skip_ws_and_prolog s idx0 =
     (if idx0 < length s then
        (let idx = skip_ws s idx0
         in if idx + 1 \<ge> length s \<or> s ! idx \<noteq> CHR ''<'' then Inr idx
            else if s ! (idx + 1) = CHR ''?'' \<or> s ! (idx + 1) = CHR ''!'' then
              (case find_char s CHR ''>'' idx of
                 None \<Rightarrow> Inl (XMLParseError ''Unclosed prolog/comment'')
               | Some end_pos \<Rightarrow> skip_ws_and_prolog s (end_pos + 1))
            else Inr idx)
      else Inr idx0)"
  by pat_completeness auto
termination
proof (relation "measure (\<lambda>(s, idx). length s - idx)", goal_cases)
  case 1
  show ?case by simp
next
  case (2 s idx0 idx end_pos)
  from 2 have "idx \<le> end_pos \<and> end_pos < length s"
    by (auto dest: find_char_ge)
  moreover have "idx0 \<le> idx"
    using 2 by (simp add: skip_ws_def scan_while_ge)
  ultimately have "length s - Suc end_pos < length s - idx0"
    by arith
  then show ?case
    by simp
qed

declare skip_ws_and_prolog.simps [simp del]

definition parse_entity :: "string \<Rightarrow> string" where
  "parse_entity entity =
     (if entity = ''lt'' then ''<''
      else if entity = ''gt'' then ''>''
      else if entity = ''amp'' then ''&''
      else if entity = ''quot'' then [CHR 0x22]
      else if entity = ''apos'' then [CHR 0x27]
      else ''&'' @ entity @ '';'')"

function decode_text_from :: "string \<Rightarrow> nat \<Rightarrow> string \<Rightarrow> string" where
  "decode_text_from text i decoded =
     (if i < length text then
        (if text ! i = CHR ''&'' then
           (case find_char text CHR '';'' i of
              Some semi_pos \<Rightarrow>
                decode_text_from text (semi_pos + 1)
                  (decoded @ parse_entity (substr text (i + 1) (semi_pos - i - 1)))
            | None \<Rightarrow> decode_text_from text (i + 1) (decoded @ ''&''))
         else decode_text_from text (i + 1) (decoded @ [text ! i]))
      else decoded)"
  by pat_completeness auto
termination
  by (relation "measure (\<lambda>(text, i, decoded). length text - i)")
     (auto dest: find_char_ge)

declare decode_text_from.simps [simp del]

definition decode_text :: "string \<Rightarrow> string" where
  "decode_text text = decode_text_from text 0 []"

definition is_name_char :: "char \<Rightarrow> bool" where
  "is_name_char c \<longleftrightarrow> isalnum c \<or> c = CHR ''_'' \<or> c = CHR '':'' \<or> c = CHR ''-''"

definition is_key_char :: "char \<Rightarrow> bool" where
  "is_key_char c \<longleftrightarrow> isalnum c \<or> c = CHR ''_'' \<or> c = CHR '':''"

text \<open>
  One turn of the loop over the attributes of \<open>parse_node\<close>: the key, the decoded value and the
  cursor. The quote is read with \<^verbatim>\<open>s[idx]\<close>, which at the end of the text is the NUL.
\<close>

definition parse_attribute :: "string \<Rightarrow> nat \<Rightarrow> error + string \<times> string \<times> nat" where
  "parse_attribute s key_start =
     (let idx = scan_while is_key_char s key_start;
          key = substr s key_start (idx - key_start);
          idx = skip_ws s idx
      in if idx \<ge> length s \<or> s ! idx \<noteq> CHR ''=''
         then Inl (XMLParseError (''Expected '' @ [CHR 0x27, CHR ''='', CHR 0x27] @ '' after attribute key''))
         else
           let idx = skip_ws s (idx + 1);
               quote = char_at s idx
           in if quote \<noteq> CHR 0x22 \<and> quote \<noteq> CHR 0x27
              then Inl (XMLParseError ''Attribute value must be quoted'')
              else
                let val_start = idx + 1;
                    idx = scan_while (\<lambda>c. c \<noteq> quote) s val_start;
                    val = substr s val_start (idx - val_start)
                in Inr (key, decode_text val, skip_ws s (idx + 1)))"

lemma parse_attribute_idx:
  assumes "parse_attribute s idx = Inr (key, val, idx')"
  shows "idx < idx'"
proof -
  define i1 where "i1 = skip_ws s (scan_while is_key_char s idx)"
  define i2 where "i2 = skip_ws s (i1 + 1)"
  define i3 where "i3 = scan_while (\<lambda>c. c \<noteq> char_at s i2) s (i2 + 1)"
  have "idx \<le> i1"
    unfolding i1_def skip_ws_def
    using scan_while_ge [of idx is_key_char s]
      scan_while_ge [of "scan_while is_key_char s idx" isspace s] by simp
  moreover have "i1 + 1 \<le> i2"
    unfolding i2_def skip_ws_def by (rule scan_while_ge)
  moreover have "i2 + 1 \<le> i3"
    unfolding i3_def by (rule scan_while_ge)
  moreover have "i3 + 1 \<le> skip_ws s (i3 + 1)"
    unfolding skip_ws_def by (rule scan_while_ge)
  moreover from assms have "idx' = skip_ws s (i3 + 1)"
    by (auto simp: parse_attribute_def Let_def i1_def i2_def i3_def split: if_splits)
  ultimately show ?thesis
    by simp
qed

function parse_attributes ::
  "string \<Rightarrow> nat \<Rightarrow> (string \<times> string) list \<Rightarrow> error + (string \<times> string) list \<times> nat" where
  "parse_attributes s idx attrs =
     (if idx < length s \<and> s ! idx \<noteq> CHR ''>'' \<and> s ! idx \<noteq> CHR ''/'' then
        (case parse_attribute s idx of
           Inl e \<Rightarrow> Inl e
         | Inr (key, val, idx') \<Rightarrow> parse_attributes s idx' (map_assign attrs key val))
      else Inr (attrs, idx))"
  by pat_completeness auto
termination
  by (relation "measure (\<lambda>(s, idx, attrs). length s - idx)")
     (auto dest: parse_attribute_idx)

declare parse_attributes.simps [simp del]

text \<open>
  \<open>parse_node\<close> in three parts. \<open>open_tag\<close> is its beginning, up to the end of the opening
  tag: it returns the node, the cursor and whether the tag closed itself. \<open>parse_content\<close> is
  the loop over the content, which returns the node, the cursor and \<^verbatim>\<open>content_start\<close>.
  \<open>close_node\<close> is what follows the loop. \<open>parse_node\<close> and the loop call each other; the fuel
  bounds the number of calls, \<open>None\<close> is its exhaustion.
\<close>

definition open_tag :: "string \<Rightarrow> nat \<Rightarrow> error + Node \<times> nat \<times> bool" where
  "open_tag s idx0 =
     (let idx = skip_ws s idx0
      in if idx \<ge> length s \<or> s ! idx \<noteq> CHR ''<''
         then Inl (XMLParseError (''Expected '' @ [CHR 0x27, CHR ''<'', CHR 0x27] @ '' to start a node''))
         else
           let name_start = idx + 1;
               idx = scan_while is_name_char s name_start;
               node = new_node (substr s name_start (idx - name_start));
               idx = skip_ws s idx
           in case parse_attributes s idx [] of
                Inl e \<Rightarrow> Inl e
              | Inr (attrs, idx) \<Rightarrow>
                  let node = Node (name node) (text_content node) attrs (child_nodes node)
                  in if idx \<ge> length s then Inl (XMLParseError ''Unclosed tag'')
                     else if s ! idx = CHR ''/'' then
                       (if idx + 1 \<ge> length s \<or> s ! (idx + 1) \<noteq> CHR ''>''
                        then Inl (XMLParseError
                               (''Expected '' @ [CHR 0x27, CHR ''>'', CHR 0x27]
                                  @ '' for self-closing tag''))
                        else Inr (node, idx + 2, True))
                     else if s ! idx \<noteq> CHR ''>''
                     then Inl (XMLParseError
                            (''Expected '' @ [CHR 0x27, CHR ''>'', CHR 0x27]
                               @ '' to close tag opening''))
                     else Inr (node, idx + 1, False))"

definition close_node :: "string \<Rightarrow> nat \<Rightarrow> nat \<Rightarrow> Node \<Rightarrow> error + Node \<times> nat" where
  "close_node s idx content_start node0 =
     (let node = (if idx > content_start
                  then add_text node0 (decode_text (substr s content_start (idx - content_start)))
                  else node0)
      in if idx + 1 \<ge> length s \<or> s ! idx \<noteq> CHR ''<'' \<or> s ! (idx + 1) \<noteq> CHR ''/''
         then Inl (XMLParseError ''Expected closing tag'')
         else
           let close_name_start = idx + 2;
               idx = scan_while (\<lambda>c. c \<noteq> CHR ''>'') s close_name_start
           in if substr s close_name_start (idx - close_name_start) \<noteq> name node
              then Inl (XMLParseError (''Mismatched closing tag: expected '' @ name node))
              else Inr (node, idx + 1))"

function (sequential) parse_node :: "nat \<Rightarrow> string \<Rightarrow> nat \<Rightarrow> (error + Node \<times> nat) option"
  and parse_content ::
    "nat \<Rightarrow> string \<Rightarrow> nat \<Rightarrow> nat \<Rightarrow> Node \<Rightarrow> (error + Node \<times> nat \<times> nat) option"
where
  "parse_node 0 s idx0 = None"
| "parse_node (Suc fuel) s idx0 =
     (case open_tag s idx0 of
        Inl e \<Rightarrow> Some (Inl e)
      | Inr (node, idx, self_closing) \<Rightarrow>
          if self_closing then Some (Inr (node, idx))
          else
            (case parse_content fuel s idx idx node of
               None \<Rightarrow> None
             | Some (Inl e) \<Rightarrow> Some (Inl e)
             | Some (Inr (node, idx, content_start)) \<Rightarrow>
                 Some (close_node s idx content_start node)))"
| "parse_content 0 s idx0 content_start node = None"
| "parse_content (Suc fuel) s idx0 content_start node =
     (if idx0 < length s then
        (let idx = skip_ws s idx0
         in if idx + 1 < length s \<and> s ! idx = CHR ''<'' \<and> s ! (idx + 1) = CHR ''/''
            then Some (Inr (node, idx, content_start))
            else if idx < length s \<and> s ! idx = CHR ''<'' then
              (let node = (if idx > content_start
                           then add_text node (decode_text (substr s content_start (idx - content_start)))
                           else node)
               in case parse_node fuel s idx of
                    None \<Rightarrow> None
                  | Some (Inl e) \<Rightarrow> Some (Inl e)
                  | Some (Inr (child, idx')) \<Rightarrow>
                      parse_content fuel s idx' idx' (add_child node child))
            else parse_content fuel s (idx + 1) content_start node)
      else Some (Inr (node, idx0, content_start)))"
  by pat_completeness auto
termination
  by (relation "measure (\<lambda>x. case x of Inl (fuel, s, idx) \<Rightarrow> fuel
        | Inr (fuel, s, idx, content_start, node) \<Rightarrow> fuel)") auto

declare parse_node.simps [simp del] parse_content.simps [simp del]

text \<open>
  \<^verbatim>\<open>Node::parse\<close>. The two functions call each other at most once per two characters, and the
  fuel given suffices: see \<open>xml_parse_returns\<close>.
\<close>

definition xml_parse :: "string \<Rightarrow> (error + Node) option" where
  "xml_parse s =
     (case skip_ws_and_prolog s 0 of
        Inl e \<Rightarrow> Some (Inl e)
      | Inr idx \<Rightarrow>
          (case parse_node (2 * length s + 1) s idx of
             None \<Rightarrow> None
           | Some (Inl e) \<Rightarrow> Some (Inl e)
           | Some (Inr (root_node, idx)) \<Rightarrow>
               (let idx = skip_ws s idx
                in if idx < length s
                   then Some (Inl (XMLParseError
                          (''Extra characters after root element at position '' @ to_string (int idx))))
                   else Some (Inr root_node))))"

subsection \<open>The content of an element as a sequence\<close>

text \<open>
  The content of an element, read as the sequence of what the loop of \<open>parse_node\<close> meets: a
  text run is the text between two tags, before it is decoded, and a child is a nested
  element. \<open>content_items\<close> follows the loop and records each run and each child where
  the loop meets it, in place of storing them into the node; \<open>last_run\<close> is the run that
  the statement after the loop reads.
\<close>

datatype item = Run string | Child Node

fun runs :: "item list \<Rightarrow> string list" where
  "runs [] = []"
| "runs (Run t # items) = t # runs items"
| "runs (Child c # items) = runs items"

fun children :: "item list \<Rightarrow> Node list" where
  "children [] = []"
| "children (Run t # items) = children items"
| "children (Child c # items) = c # children items"

definition run_item :: "string \<Rightarrow> nat \<Rightarrow> nat \<Rightarrow> item list" where
  "run_item s content_start idx =
     (if idx > content_start then [Run (substr s content_start (idx - content_start))] else [])"

fun content_items ::
  "nat \<Rightarrow> string \<Rightarrow> nat \<Rightarrow> nat \<Rightarrow> (error + item list \<times> nat \<times> nat) option" where
  "content_items 0 s idx0 content_start = None"
| "content_items (Suc fuel) s idx0 content_start =
     (if idx0 < length s then
        (let idx = skip_ws s idx0
         in if idx + 1 < length s \<and> s ! idx = CHR ''<'' \<and> s ! (idx + 1) = CHR ''/''
            then Some (Inr ([], idx, content_start))
            else if idx < length s \<and> s ! idx = CHR ''<'' then
              (case parse_node fuel s idx of
                 None \<Rightarrow> None
               | Some (Inl e) \<Rightarrow> Some (Inl e)
               | Some (Inr (child, idx')) \<Rightarrow>
                   (case content_items fuel s idx' idx' of
                      None \<Rightarrow> None
                    | Some (Inl e) \<Rightarrow> Some (Inl e)
                    | Some (Inr (items, r)) \<Rightarrow>
                        Some (Inr (run_item s content_start idx @ Child child # items, r))))
            else content_items fuel s (idx + 1) content_start)
      else Some (Inr ([], idx0, content_start)))"

declare content_items.simps [simp del]

text \<open>
  The content of the element that starts at \<open>idx0\<close>: what the loop meets, and the run that
  is left when the loop ends. A self-closing element has no content.
\<close>

definition element_items :: "nat \<Rightarrow> string \<Rightarrow> nat \<Rightarrow> (error + item list) option" where
  "element_items fuel s idx0 =
     (case open_tag s idx0 of
        Inl e \<Rightarrow> Some (Inl e)
      | Inr (node, idx, self_closing) \<Rightarrow>
          if self_closing then Some (Inr [])
          else
            (case content_items fuel s idx idx of
               None \<Rightarrow> None
             | Some (Inl e) \<Rightarrow> Some (Inl e)
             | Some (Inr (items, idx', content_start)) \<Rightarrow>
                 Some (Inr (items @ run_item s content_start idx'))))"

subsection \<open>The layout of the serialized node, as specified\<close>

text \<open>
  The layout that the specification gives to a serialized node, for a given text of its
  children: a self-closing tag when the node has neither text nor children; otherwise the
  opening tag with the attributes, a newline when pretty, the indented text content when it is
  not empty, the children, and the closing tag at the indent of the opening tag. Every line ends
  with a newline when pretty.
\<close>

definition indent_text :: "bool \<Rightarrow> nat \<Rightarrow> nat \<Rightarrow> string" where
  "indent_text pretty indent_level indent_size =
     (if pretty then replicate (indent_level * indent_size) CHR '' '' else [])"

definition newline_text :: "bool \<Rightarrow> string" where
  "newline_text pretty = (if pretty then [CHR 0x0A] else [])"

definition layout_as_specified :: "bool \<Rightarrow> nat \<Rightarrow> nat \<Rightarrow> Node \<Rightarrow> string \<Rightarrow> string" where
  "layout_as_specified pretty indent_level indent_size n children_text =
     (if text_content n = [] \<and> child_nodes n = []
      then indent_text pretty indent_level indent_size
           @ ''<'' @ name n @ dump_attributes (attributes n) @ '' />'' @ newline_text pretty
      else indent_text pretty indent_level indent_size
           @ ''<'' @ name n @ dump_attributes (attributes n) @ ''>'' @ newline_text pretty
           @ (if text_content n \<noteq> []
              then indent_text pretty (indent_level + 1) indent_size
                   @ encode_text (text_content n) @ newline_text pretty
              else [])
           @ children_text
           @ indent_text pretty indent_level indent_size
           @ ''</'' @ name n @ ''>'' @ newline_text pretty)"

fun dump_as_specified :: "bool \<Rightarrow> nat \<Rightarrow> nat \<Rightarrow> Node \<Rightarrow> string" where
  "dump_as_specified pretty indent_level indent_size (Node nm text attrs cs) =
     layout_as_specified pretty indent_level indent_size (Node nm text attrs cs)
       (concat (map (dump_as_specified pretty (indent_level + 1) indent_size) cs))"

text \<open>A node with text and without children, which the serializer writes on one line.\<close>

definition text_only :: "Node \<Rightarrow> bool" where
  "text_only n \<longleftrightarrow> text_content n \<noteq> [] \<and> child_nodes n = []"

subsection \<open>Mutations of a node\<close>

text \<open>
  The members that change a node, and the same done to the child that a chain of mutable
  \<^verbatim>\<open>operator[]\<close> refers to, as in \<^verbatim>\<open>n["a"]["b"].set_attribute(k, v)\<close>.
\<close>

datatype node_mutation =
    Set_attribute string string
  | Remove_attribute string
  | Set_text string
  | Add_child Node
  | Clear_node
  | Touch_node

fun apply_node_mutation :: "node_mutation \<Rightarrow> Node \<Rightarrow> Node" where
  "apply_node_mutation (Set_attribute key val) n = set_attribute n key val"
| "apply_node_mutation (Remove_attribute key) n = remove_attribute n key"
| "apply_node_mutation (Set_text t) n = set_text n t"
| "apply_node_mutation (Add_child child) n = add_child n child"
| "apply_node_mutation Clear_node n = clear n"
| "apply_node_mutation Touch_node n = n"

fun mutate_node_at :: "string list \<Rightarrow> node_mutation \<Rightarrow> Node \<Rightarrow> Node" where
  "mutate_node_at [] m n = apply_node_mutation m n"
| "mutate_node_at (child_name # names) m n =
     (case operator_subscript n child_name of
        (n', i) \<Rightarrow>
          Node (name n') (text_content n') (attributes n')
            ((child_nodes n')[i := mutate_node_at names m (child_nodes n' ! i)]))"

text \<open>The attributes of every node of a tree are in ascending order of key, each once.\<close>

fun sorted_attributes :: "Node \<Rightarrow> bool" where
  "sorted_attributes (Node nm tc attrs cs) =
     (sorted_wrt (<) (map fst attrs) \<and> (\<forall>c \<in> set cs. sorted_attributes c))"

fun node_payload :: "node_mutation \<Rightarrow> Node" where
  "node_payload (Add_child child) = child"
| "node_payload m = Node [] [] [] []"

text \<open>The text of one attribute in the output of the serializer.\<close>

definition attribute_text :: "string \<times> string \<Rightarrow> string" where
  "attribute_text kv = '' '' @ fst kv @ [CHR ''='', CHR 0x22] @ encode_text (snd kv) @ [CHR 0x22]"

section \<open>The JSON parser returns\<close>

text \<open>More fuel does not change a result.\<close>

lemma parse_fuel_mono:
  "parse_value f s i = Some r \<Longrightarrow> parse_value (f + k) s i = Some r"
  "parse_array f s i = Some r \<Longrightarrow> parse_array (f + k) s i = Some r"
  "parse_array_loop f s i arr = Some r \<Longrightarrow> parse_array_loop (f + k) s i arr = Some r"
  "parse_object f s i = Some r \<Longrightarrow> parse_object (f + k) s i = Some r"
  "parse_object_loop f s i obj = Some r \<Longrightarrow> parse_object_loop (f + k) s i obj = Some r"
proof (induction f s i and f s i and f s i arr and f s i and f s i obj
    arbitrary: r and r and r and r and r
    rule: parse_value_parse_array_parse_array_loop_parse_object_parse_object_loop.induct)
  case (1 s idx0)
  then show ?case by (simp add: parse_value.simps)
next
  case (2 fuel s idx0)
  show ?case
  proof (cases "length s \<le> skip_ws s idx0")
    case True
    then have "parse_value (Suc fuel + k) s idx0 = parse_value (Suc fuel) s idx0"
      by (simp add: parse_value.simps Let_def)
    with "2.prems" show ?thesis by simp
  next
    case False
    note ih = "2.IH" [OF refl False refl]
    consider (arr) "s ! skip_ws s idx0 = CHR ''[''" | (obj) "s ! skip_ws s idx0 = CHR ''{''"
      | (other) "s ! skip_ws s idx0 \<noteq> CHR ''[''" "s ! skip_ws s idx0 \<noteq> CHR ''{''"
      by blast
    then show ?thesis
    proof cases
      case arr
      with False have e: "\<And>f. parse_value (Suc f) s idx0 = parse_array f s (skip_ws s idx0)"
        by (simp add: parse_value.simps Let_def)
      from "2.prems" have "parse_array fuel s (skip_ws s idx0) = Some r"
        by (simp only: e)
      then have "parse_array (fuel + k) s (skip_ws s idx0) = Some r"
        using ih(1) arr by simp
      then show ?thesis
        using e [of "fuel + k"] by simp
    next
      case obj
      with False have e: "\<And>f. parse_value (Suc f) s idx0 = parse_object f s (skip_ws s idx0)"
        by (simp add: parse_value.simps Let_def)
      from "2.prems" have "parse_object fuel s (skip_ws s idx0) = Some r"
        by (simp only: e)
      then have "parse_object (fuel + k) s (skip_ws s idx0) = Some r"
        using ih(2) obj by simp
      then show ?thesis
        using e [of "fuel + k"] by simp
    next
      case other
      then have "parse_value (Suc fuel + k) s idx0 = parse_value (Suc fuel) s idx0"
        by (simp add: parse_value.simps Let_def)
      with "2.prems" show ?thesis by simp
    qed
  qed
next
  case (3 fuel s idx0)
  then show ?case
    by (auto simp: parse_array.simps Let_def split: if_splits)
next
  case (4 s idx arr)
  then show ?case by (simp add: parse_array_loop.simps)
next
  case (5 fuel s idx arr)
  from "5.prems" obtain a where a: "parse_value fuel s idx = Some a"
    by (auto simp: parse_array_loop.simps split: option.splits)
  then have a': "parse_value (fuel + k) s idx = Some a"
    by (rule "5.IH"(1))
  show ?case
  proof (cases a)
    case (Inl e)
    with a a' "5.prems" show ?thesis
      by (auto simp: parse_array_loop.simps)
  next
    case (Inr p)
    obtain el idx1 where p: "p = (el, idx1)" by (cases p)
    note ih = "5.IH"(2) [OF a Inr p [symmetric] refl refl]
    from a a' Inr p "5.prems" ih show ?thesis
      by (auto simp: parse_array_loop.simps Let_def split: if_splits)
  qed
next
  case (6 fuel s idx0)
  then show ?case
    by (auto simp: parse_object.simps Let_def split: if_splits)
next
  case (7 s idx obj)
  then show ?case by (simp add: parse_object_loop.simps)
next
  case (8 fuel s idx0 obj)
  define idx where "idx = skip_ws s idx0"
  show ?case
  proof (cases "length s \<le> idx \<or> s ! idx \<noteq> CHR 0x22")
    case True
    with "8.prems" show ?thesis
      by (auto simp: parse_object_loop.simps Let_def idx_def)
  next
    case nokey: False
    show ?thesis
    proof (cases "parse_string s idx")
      case (Inl e)
      with nokey "8.prems" show ?thesis
        by (auto simp: parse_object_loop.simps Let_def idx_def)
    next
      case (Inr p)
      obtain key idx1 where p: "p = (key, idx1)" by (cases p)
      define idx2 where "idx2 = skip_ws s idx1"
      show ?thesis
      proof (cases "length s \<le> idx2 \<or> s ! idx2 \<noteq> CHR '':''")
        case True
        with nokey Inr p "8.prems" show ?thesis
          by (auto simp: parse_object_loop.simps Let_def idx_def idx2_def)
      next
        case colon: False
        from nokey Inr p colon "8.prems" obtain a where a: "parse_value fuel s (idx2 + 1) = Some a"
          by (auto simp: parse_object_loop.simps Let_def idx_def idx2_def split: option.splits)
        have a': "parse_value (fuel + k) s (idx2 + 1) = Some a"
          using "8.IH"(1) [OF idx_def nokey Inr p [symmetric] idx2_def colon a] .
        show ?thesis
        proof (cases a)
          case (Inl e)
          with nokey Inr p colon a a' "8.prems" show ?thesis
            by (auto simp: parse_object_loop.simps Let_def idx_def idx2_def)
        next
          case inr: (Inr q)
          obtain val idx3 where q: "q = (val, idx3)" by (cases q)
          show ?thesis
          proof (cases key)
            case (JString kk)
            note ih = "8.IH"(2) [OF idx_def nokey Inr p [symmetric] idx2_def colon a inr q [symmetric] JString refl refl]
            from nokey Inr p colon a a' inr q JString "8.prems" ih show ?thesis
              by (auto simp: parse_object_loop.simps Let_def idx_def idx2_def split: if_splits)
          qed (use nokey Inr p colon a a' inr q "8.prems" in
                \<open>auto simp: parse_object_loop.simps Let_def idx_def idx2_def\<close>)
        qed
      qed
    qed
  qed
qed

lemma parse_value_fuel:
  assumes "parse_value f s i = Some r" and "f \<le> f'"
  shows "parse_value f' s i = Some r"
  using parse_fuel_mono(1) [OF assms(1), of "f' - f"] assms(2) by simp

text \<open>Every parsing function that returns a value has moved the cursor forward, within the text.\<close>

lemma parse_null_idx: "parse_null s i = Inr (v, i') \<Longrightarrow> i < i' \<and> i' \<le> length s"
  by (auto simp: parse_null_def split: if_splits)

lemma parse_bool_idx: "parse_bool s i = Inr (v, i') \<Longrightarrow> i < i' \<and> i' \<le> length s"
  by (auto simp: parse_bool_def split: if_splits)

lemma parse_string_idx: "parse_string s i = Inr (v, i') \<Longrightarrow> i < i' \<and> i' \<le> length s"
proof -
  assume a: "parse_string s i = Inr (v, i')"
  then have q: "char_at s i = CHR 0x22"
    by (auto simp: parse_string_def split: if_splits)
  then have lt: "i < length s"
    by (auto simp: char_at_def split: if_splits)
  from a q obtain res where "parse_string_loop s (i + 1) [] = Inr (res, i')"
    by (auto simp: parse_string_def split: if_splits sum.splits)
  from parse_string_loop_idx [OF this] lt show ?thesis by simp
qed

lemma parse_number_idx: "parse_number s i = Inr (v, i') \<Longrightarrow> i < i' \<and> i' \<le> length s"
proof -
  assume a: "parse_number s i = Inr (v, i')"
  define idx1 where "idx1 = (if char_at s i = CHR ''-'' then i + 1 else i)"
  define idx2 where "idx2 = (if s ! idx1 = CHR ''0'' then idx1 + 1 else scan_while isdigit s idx1)"
  define idx3 where "idx3 = (if idx2 < length s \<and> s ! idx2 = CHR ''.''
                            then scan_while isdigit s (idx2 + 1) else idx2)"
  define has_exp where "has_exp \<longleftrightarrow> (idx3 < length s \<and> (s ! idx3 = CHR ''e'' \<or> s ! idx3 = CHR ''E''))"
  define idx4 where "idx4 = (if has_exp \<and> idx3 + 1 < length s
                               \<and> (s ! (idx3 + 1) = CHR ''+'' \<or> s ! (idx3 + 1) = CHR ''-'')
                            then idx3 + 2 else idx3 + 1)"
  define idx5 where "idx5 = (if has_exp then scan_while isdigit s idx4 else idx3)"
  from a have d: "idx1 < length s" "isdigit (s ! idx1)"
    by (auto simp: parse_number_def idx1_def Let_def split: if_splits)
  from a d have e: "\<not> (has_exp \<and> (length s \<le> idx4 \<or> \<not> isdigit (s ! idx4)))"
    unfolding parse_number_def idx1_def [symmetric] Let_def idx2_def [symmetric] idx3_def [symmetric]
      has_exp_def [symmetric] idx4_def [symmetric]
    by (auto split: if_splits)
  from a d e have r: "i' = idx5"
    unfolding parse_number_def idx1_def [symmetric] Let_def idx2_def [symmetric] idx3_def [symmetric]
      has_exp_def [symmetric] idx4_def [symmetric] idx5_def [symmetric]
    by (auto split: if_splits sum.splits)
  have 1: "i \<le> idx1" by (simp add: idx1_def)
  have 2: "idx1 < idx2 \<and> idx2 \<le> length s"
    using d scan_while_gt [of idx1 s isdigit] scan_while_le [of idx1 s isdigit]
    by (auto simp: idx2_def)
  have 3: "idx2 \<le> idx3 \<and> idx3 \<le> length s"
    using 2 scan_while_ge [of "idx2 + 1" isdigit s] scan_while_le [of "idx2 + 1" s isdigit]
    by (auto simp: idx3_def)
  have 4: "idx3 \<le> idx5 \<and> idx5 \<le> length s"
  proof (cases has_exp)
    case True
    with e have "idx4 < length s" by simp
    moreover have "idx3 \<le> idx4" by (simp add: idx4_def)
    ultimately show ?thesis
      using True scan_while_ge [of idx4 isdigit s] scan_while_le [of idx4 s isdigit]
      by (auto simp: idx5_def)
  next
    case False
    with 3 show ?thesis by (simp add: idx5_def)
  qed
  from 1 2 3 4 r show ?thesis by simp
qed

lemma parse_progress:
  "parse_value f s i = Some (Inr (v, i')) \<Longrightarrow> i < i' \<and> i' \<le> length s"
  "parse_array f s i = Some (Inr (v, i')) \<Longrightarrow> i < i' \<and> i' \<le> length s"
  "parse_array_loop f s i arr = Some (Inr (v, i')) \<Longrightarrow> i < i' \<and> i' \<le> length s"
  "parse_object f s i = Some (Inr (v, i')) \<Longrightarrow> i < i' \<and> i' \<le> length s"
  "parse_object_loop f s i obj = Some (Inr (v, i')) \<Longrightarrow> i < i' \<and> i' \<le> length s"
proof (induction f s i and f s i and f s i arr and f s i and f s i obj
    arbitrary: v i' and v i' and v i' and v i' and v i'
    rule: parse_value_parse_array_parse_array_loop_parse_object_parse_object_loop.induct)
  case (1 s idx0)
  then show ?case by (simp add: parse_value.simps)
next
  case (2 fuel s idx0)
  have ge: "idx0 \<le> skip_ws s idx0"
    by (simp add: skip_ws_def scan_while_ge)
  show ?case
  proof (cases "length s \<le> skip_ws s idx0")
    case True
    with "2.prems" show ?thesis
      by (simp add: parse_value.simps Let_def)
  next
    case False
    note ih = "2.IH" [OF refl False refl]
    consider (arr) "s ! skip_ws s idx0 = CHR ''[''" | (obj) "s ! skip_ws s idx0 = CHR ''{''"
      | (other) "s ! skip_ws s idx0 \<noteq> CHR ''[''" "s ! skip_ws s idx0 \<noteq> CHR ''{''"
      by blast
    then show ?thesis
    proof cases
      case arr
      with False "2.prems" have "parse_array fuel s (skip_ws s idx0) = Some (Inr (v, i'))"
        by (simp add: parse_value.simps Let_def)
      with ih(1) arr ge show ?thesis by fastforce
    next
      case obj
      with False "2.prems" have "parse_object fuel s (skip_ws s idx0) = Some (Inr (v, i'))"
        by (simp add: parse_value.simps Let_def)
      with ih(2) obj ge show ?thesis by fastforce
    next
      case other
      with False "2.prems"
      have "parse_null s (skip_ws s idx0) = Inr (v, i') \<or> parse_bool s (skip_ws s idx0) = Inr (v, i')
          \<or> parse_string s (skip_ws s idx0) = Inr (v, i') \<or> parse_number s (skip_ws s idx0) = Inr (v, i')"
        by (simp add: parse_value.simps Let_def split: if_splits)
      with ge show ?thesis
        by (auto dest!: parse_null_idx parse_bool_idx parse_string_idx parse_number_idx)
    qed
  qed
next
  case (3 fuel s idx0)
  have lt: "idx0 < length s" and br: "char_at s idx0 = CHR ''[''"
    using "3.prems" by (auto simp: parse_array.simps char_at_def split: if_splits)
  define idx where "idx = skip_ws s (idx0 + 1)"
  have ge: "idx0 + 1 \<le> idx"
    by (simp add: idx_def skip_ws_def scan_while_ge)
  show ?case
  proof (cases "idx < length s \<and> s ! idx = CHR '']''")
    case True
    with "3.prems" br ge show ?thesis
      by (auto simp: parse_array.simps Let_def idx_def)
  next
    case False
    with "3.prems" br have "parse_array_loop fuel s idx [] = Some (Inr (v, i'))"
      by (auto simp: parse_array.simps Let_def idx_def)
    from "3.IH" [OF _ idx_def False this] br ge show ?thesis by simp
  qed
next
  case (4 s idx arr)
  then show ?case by (simp add: parse_array_loop.simps)
next
  case (5 fuel s idx arr)
  from "5.prems" obtain a where a: "parse_value fuel s idx = Some a"
    by (auto simp: parse_array_loop.simps split: option.splits)
  show ?case
  proof (cases a)
    case (Inl e)
    with a "5.prems" show ?thesis
      by (auto simp: parse_array_loop.simps)
  next
    case (Inr p)
    obtain el idx1 where p: "p = (el, idx1)" by (cases p)
    from "5.IH"(1) a Inr p have b1: "idx < idx1 \<and> idx1 \<le> length s" by simp
    define idx2 where "idx2 = skip_ws s idx1"
    have b2: "idx1 \<le> idx2" by (simp add: idx2_def skip_ws_def scan_while_ge)
    have b3: "idx2 + 1 \<le> skip_ws s (idx2 + 1)" by (simp add: skip_ws_def scan_while_ge)
    note ih = "5.IH"(2) [OF a Inr p [symmetric] refl idx2_def]
    from a Inr p "5.prems" ih b1 b2 b3 show ?thesis
      by (auto simp: parse_array_loop.simps Let_def idx2_def split: if_splits)
  qed
next
  case (6 fuel s idx0)
  have lt: "idx0 < length s" and br: "char_at s idx0 = CHR ''{''"
    using "6.prems" by (auto simp: parse_object.simps char_at_def split: if_splits)
  define idx where "idx = skip_ws s (idx0 + 1)"
  have ge: "idx0 + 1 \<le> idx"
    by (simp add: idx_def skip_ws_def scan_while_ge)
  show ?case
  proof (cases "idx < length s \<and> s ! idx = CHR ''}''")
    case True
    with "6.prems" br ge show ?thesis
      by (auto simp: parse_object.simps Let_def idx_def)
  next
    case False
    with "6.prems" br have "parse_object_loop fuel s idx [] = Some (Inr (v, i'))"
      by (auto simp: parse_object.simps Let_def idx_def)
    from "6.IH" [OF _ idx_def False this] br ge show ?thesis by simp
  qed
next
  case (7 s idx obj)
  then show ?case by (simp add: parse_object_loop.simps)
next
  case (8 fuel s idx0 obj)
  define idx where "idx = skip_ws s idx0"
  have g0: "idx0 \<le> idx" by (simp add: idx_def skip_ws_def scan_while_ge)
  from "8.prems" have nokey: "\<not> (length s \<le> idx \<or> s ! idx \<noteq> CHR 0x22)"
    by (auto simp: parse_object_loop.simps Let_def idx_def split: if_splits)
  from "8.prems" nokey obtain p where Inr: "parse_string s idx = Inr p"
    by (auto simp: parse_object_loop.simps Let_def idx_def split: sum.splits)
  obtain key idx1 where p: "p = (key, idx1)" by (cases p)
  from Inr p have g1: "idx < idx1" by (auto dest: parse_string_idx)
  define idx2 where "idx2 = skip_ws s idx1"
  have g2: "idx1 \<le> idx2" by (simp add: idx2_def skip_ws_def scan_while_ge)
  from "8.prems" nokey Inr p have colon: "\<not> (length s \<le> idx2 \<or> s ! idx2 \<noteq> CHR '':'')"
    by (auto simp: parse_object_loop.simps Let_def idx_def idx2_def split: if_splits)
  from "8.prems" nokey Inr p colon obtain q where a: "parse_value fuel s (idx2 + 1) = Some (Inr q)"
    by (auto simp: parse_object_loop.simps Let_def idx_def idx2_def split: option.splits sum.splits)
  obtain val idx3 where q: "q = (val, idx3)" by (cases q)
  from "8.IH"(1) [OF idx_def nokey Inr p [symmetric] idx2_def colon] a q
  have g3: "idx2 + 1 < idx3 \<and> idx3 \<le> length s" by simp
  from "8.prems" nokey Inr p colon a q obtain kk where JString: "key = JString kk"
    by (auto simp: parse_object_loop.simps Let_def idx_def idx2_def split: JSON.splits)
  define idx4 where "idx4 = skip_ws s idx3"
  have g4: "idx3 \<le> idx4" by (simp add: idx4_def skip_ws_def scan_while_ge)
  have g5: "idx4 + 1 \<le> skip_ws s (idx4 + 1)" by (simp add: skip_ws_def scan_while_ge)
  note ih = "8.IH"(2) [OF idx_def nokey Inr p [symmetric] idx2_def colon a refl q [symmetric] JString refl idx4_def]
  from nokey Inr p colon a q JString "8.prems" ih g0 g1 g2 g3 g4 g5 show ?case
    by (auto simp: parse_object_loop.simps Let_def idx_def idx2_def
        idx4_def split: if_splits)
qed

text \<open>The fuel that \<open>parse\<close> supplies is enough: the recursion never runs out of it.\<close>

lemma parse_fuel_enough:
  "2 * (length s - i) + 1 \<le> f \<Longrightarrow> parse_value f s i \<noteq> None"
  "2 * (length s - i) \<le> f \<Longrightarrow> parse_array f s i \<noteq> None"
  "2 * (length s - i) + 2 \<le> f \<Longrightarrow> parse_array_loop f s i arr \<noteq> None"
  "2 * (length s - i) \<le> f \<Longrightarrow> parse_object f s i \<noteq> None"
  "2 * (length s - i) + 2 \<le> f \<Longrightarrow> parse_object_loop f s i obj \<noteq> None"
proof (induction f s i and f s i and f s i arr and f s i and f s i obj
    rule: parse_value_parse_array_parse_array_loop_parse_object_parse_object_loop.induct)
  case (1 s idx0)
  then show ?case by simp
next
  case (2 fuel s idx0)
  have ge: "idx0 \<le> skip_ws s idx0"
    by (simp add: skip_ws_def scan_while_ge)
  show ?case
  proof (cases "length s \<le> skip_ws s idx0")
    case True
    then show ?thesis
      by (simp add: parse_value.simps Let_def)
  next
    case False
    note ih = "2.IH" [OF refl False refl]
    from ge "2.prems" have b: "2 * (length s - skip_ws s idx0) \<le> fuel" by arith
    consider (arr) "s ! skip_ws s idx0 = CHR ''[''" | (obj) "s ! skip_ws s idx0 = CHR ''{''"
      | (other) "s ! skip_ws s idx0 \<noteq> CHR ''[''" "s ! skip_ws s idx0 \<noteq> CHR ''{''"
      by blast
    then show ?thesis
    proof cases
      case arr
      with False ih(1) b show ?thesis
        by (simp add: parse_value.simps Let_def)
    next
      case obj
      with False ih(2) b show ?thesis
        by (simp add: parse_value.simps Let_def)
    next
      case other
      with False show ?thesis
        by (simp add: parse_value.simps Let_def)
    qed
  qed
next
  case (3 fuel s idx0)
  show ?case
  proof (cases "char_at s idx0 = CHR ''[''")
    case False
    then show ?thesis by (simp add: parse_array.simps)
  next
    case True
    then have lt: "idx0 < length s"
      by (auto simp: char_at_def split: if_splits)
    define idx where "idx = skip_ws s (idx0 + 1)"
    have ge: "idx0 + 1 \<le> idx"
      by (simp add: idx_def skip_ws_def scan_while_ge)
    show ?thesis
    proof (cases "idx < length s \<and> s ! idx = CHR '']''")
      case c: True
      with True show ?thesis
        by (auto simp: parse_array.simps Let_def idx_def)
    next
      case c: False
      from ge lt "3.prems" have "2 * (length s - idx) + 2 \<le> fuel" by arith
      from "3.IH" [OF _ idx_def c this] True c show ?thesis
        by (auto simp: parse_array.simps Let_def idx_def)
    qed
  qed
next
  case (4 s idx arr)
  then show ?case by simp
next
  case (5 fuel s idx arr)
  from "5.prems" have "2 * (length s - idx) + 1 \<le> fuel" by simp
  from "5.IH"(1) [OF this] obtain a where a: "parse_value fuel s idx = Some a" by auto
  show ?case
  proof (cases a)
    case (Inl e)
    with a show ?thesis
      by (simp add: parse_array_loop.simps)
  next
    case (Inr p)
    obtain el idx1 where p: "p = (el, idx1)" by (cases p)
    from parse_progress(1) a Inr p have b1: "idx < idx1 \<and> idx1 \<le> length s" by simp
    define idx2 where "idx2 = skip_ws s idx1"
    have b2: "idx1 \<le> idx2" by (simp add: idx2_def skip_ws_def scan_while_ge)
    have b3: "idx2 + 1 \<le> skip_ws s (idx2 + 1)" by (simp add: skip_ws_def scan_while_ge)
    show ?thesis
    proof (cases "\<not> length s \<le> idx2 \<and> s ! idx2 = CHR '',''")
      case False
      with a Inr p show ?thesis
        by (auto simp: parse_array_loop.simps Let_def idx2_def)
    next
      case True
      then have "idx2 < length s" by simp
      with b1 b2 b3 "5.prems" have "2 * (length s - skip_ws s (idx2 + 1)) + 2 \<le> fuel"
        by arith
      from "5.IH"(2) [OF a Inr p [symmetric] refl idx2_def _ _ this] True a Inr p show ?thesis
        by (auto simp: parse_array_loop.simps Let_def idx2_def)
    qed
  qed
next
  case (6 fuel s idx0)
  show ?case
  proof (cases "char_at s idx0 = CHR ''{''")
    case False
    then show ?thesis by (simp add: parse_object.simps)
  next
    case True
    then have lt: "idx0 < length s"
      by (auto simp: char_at_def split: if_splits)
    define idx where "idx = skip_ws s (idx0 + 1)"
    have ge: "idx0 + 1 \<le> idx"
      by (simp add: idx_def skip_ws_def scan_while_ge)
    show ?thesis
    proof (cases "idx < length s \<and> s ! idx = CHR ''}''")
      case c: True
      with True show ?thesis
        by (auto simp: parse_object.simps Let_def idx_def)
    next
      case c: False
      from ge lt "6.prems" have "2 * (length s - idx) + 2 \<le> fuel" by arith
      from "6.IH" [OF _ idx_def c this] True c show ?thesis
        by (auto simp: parse_object.simps Let_def idx_def)
    qed
  qed
next
  case (7 s idx obj)
  then show ?case by simp
next
  case (8 fuel s idx0 obj)
  define idx where "idx = skip_ws s idx0"
  have g0: "idx0 \<le> idx" by (simp add: idx_def skip_ws_def scan_while_ge)
  show ?case
  proof (cases "length s \<le> idx \<or> s ! idx \<noteq> CHR 0x22")
    case True
    then show ?thesis
      by (auto simp: parse_object_loop.simps Let_def idx_def)
  next
    case nokey: False
    show ?thesis
    proof (cases "parse_string s idx")
      case (Inl e)
      with nokey show ?thesis
        by (auto simp: parse_object_loop.simps Let_def idx_def)
    next
      case (Inr p)
      obtain key idx1 where p: "p = (key, idx1)" by (cases p)
      from Inr p have g1: "idx < idx1" by (auto dest: parse_string_idx)
      define idx2 where "idx2 = skip_ws s idx1"
      have g2: "idx1 \<le> idx2" by (simp add: idx2_def skip_ws_def scan_while_ge)
      show ?thesis
      proof (cases "length s \<le> idx2 \<or> s ! idx2 \<noteq> CHR '':''")
        case True
        with nokey Inr p show ?thesis
          by (auto simp: parse_object_loop.simps Let_def idx_def idx2_def)
      next
        case colon: False
        from colon have "idx2 < length s" by simp
        with g0 g1 g2 "8.prems" have "2 * (length s - (idx2 + 1)) + 1 \<le> fuel" by arith
        from "8.IH"(1) [OF idx_def nokey Inr p [symmetric] idx2_def colon this]
        obtain a where a: "parse_value fuel s (idx2 + 1) = Some a" by auto
        show ?thesis
        proof (cases a)
          case (Inl e)
          with nokey Inr p colon a show ?thesis
            by (auto simp: parse_object_loop.simps Let_def idx_def idx2_def)
        next
          case inr: (Inr q)
          obtain val idx3 where q: "q = (val, idx3)" by (cases q)
          from parse_progress(1) a inr q have g3: "idx2 + 1 < idx3 \<and> idx3 \<le> length s" by simp
          define idx4 where "idx4 = skip_ws s idx3"
          have g4: "idx3 \<le> idx4" by (simp add: idx4_def skip_ws_def scan_while_ge)
          have g5: "idx4 + 1 \<le> skip_ws s (idx4 + 1)" by (simp add: skip_ws_def scan_while_ge)
          show ?thesis
          proof (cases key)
            case (JString kk)
            show ?thesis
            proof (cases "\<not> length s \<le> idx4 \<and> s ! idx4 = CHR '',''")
              case False
              with nokey Inr p colon a inr q JString show ?thesis
                by (auto simp: parse_object_loop.simps Let_def idx_def idx2_def idx4_def)
            next
              case True
              then have "idx4 < length s" by simp
              with g0 g1 g2 g3 g4 g5 "8.prems"
              have "2 * (length s - skip_ws s (idx4 + 1)) + 2 \<le> fuel" by arith
              from "8.IH"(2) [OF idx_def nokey Inr p [symmetric] idx2_def colon a inr q [symmetric]
                  JString refl idx4_def _ _ this] True nokey Inr p colon a inr q JString
              show ?thesis
                by (auto simp: parse_object_loop.simps Let_def idx_def idx2_def idx4_def)
            qed
          qed (use nokey Inr p colon a inr q in
                \<open>auto simp: parse_object_loop.simps Let_def idx_def idx2_def\<close>)
        qed
      qed
    qed
  qed
qed

lemma parse_returns: "parse s \<noteq> None"
  using parse_fuel_enough(1) [of s 0 "2 * length s + 1"]
  by (auto simp: parse_def Let_def split: option.splits sum.splits)

lemma parse_eq:
  assumes "parse_value f s 0 = Some r" and "f \<le> 2 * length s + 1"
  shows "parse s =
     (case r of
        Inl e \<Rightarrow> Some (Inl e)
      | Inr (result, idx) \<Rightarrow>
          if skip_ws s idx < length s then Some (Inl (JSONParseError ''Extra characters after JSON''))
          else Some (Inr result))"
  using parse_value_fuel [OF assms] by (auto simp: parse_def Let_def split: sum.splits)

section \<open>Paths: \<open>at_path\<close> against the parts of the path\<close>

lemma substr_scan_while:
  "substr s i (scan_while P s i - i) = takeWhile P (drop i s)"
  by (simp add: substr_def scan_while_takeWhile takeWhile_eq_take [symmetric])

lemma stoi_digits_nonneg:
  assumes "\<forall>c \<in> set ds. isdigit c" and "stoi 10 ds = Inr n"
  shows "0 \<le> n"
proof (cases ds)
  case Nil
  with assms show ?thesis
    by (simp add: stoi_def strip_sign_def strip_0x_def)
next
  case (Cons c cs)
  with assms have c: "isdigit c" by simp
  then have "\<not> isspace c" "c \<noteq> CHR ''-''" "c \<noteq> CHR ''+''"
    by (auto simp: isdigit_def isspace_def)
  with Cons have "strip_sign (dropWhile isspace ds) = (False, ds)"
    by (simp add: strip_sign_def)
  with assms(2) show ?thesis
    by (auto simp: stoi_def Let_def split: if_splits)
qed

lemma stoi_index_nonneg:
  "stoi 10 (substr path start (scan_while isdigit path start - start)) = Inr n \<Longrightarrow> 0 \<le> n"
  by (rule stoi_digits_nonneg [of "takeWhile isdigit (drop start path)"])
     (auto simp: substr_scan_while dest: set_takeWhileD)

text \<open>
  The first loop of \<^verbatim>\<open>set_path\<close> and the loop of \<open>at_path\<close> read the path alike. When the
  first accepts the path, \<open>at_path\<close> returns what the walk over its parts reads; when it
  rejects the path, \<open>at_path\<close> raises the same error if the segments in front of the
  malformed position resolve, and returns Null if they do not.
\<close>

lemma path_parts_from_pushed:
  "case path_parts_from path i acc of
     Inr parts \<Rightarrow> parts = acc @ path_parts_pushed path i
   | Inl e \<Rightarrow> True"
proof (induction path i acc rule: path_parts_from.induct)
  case (1 path i acc)
  show ?case
  proof (cases "i < length path")
    case False
    then show ?thesis
      by (simp add: path_parts_from.simps path_parts_pushed.simps)
  next
    case True
    consider (dot) "path ! i = CHR ''.''"
      | (ident) "path ! i \<noteq> CHR ''.''" "isalpha (path ! i) \<or> path ! i = CHR ''_''"
      | (bracket) "path ! i \<noteq> CHR ''.''" "\<not> (isalpha (path ! i) \<or> path ! i = CHR ''_'')"
          "path ! i = CHR ''[''"
      | (bad) "path ! i \<noteq> CHR ''.''" "\<not> (isalpha (path ! i) \<or> path ! i = CHR ''_'')"
          "path ! i \<noteq> CHR ''[''"
      by blast
    then show ?thesis
    proof cases
      case dot
      have pp: "path_parts_from path i acc = path_parts_from path (Suc i) acc"
        using True dot by (subst path_parts_from.simps) simp
      have pu: "path_parts_pushed path i = path_parts_pushed path (Suc i)"
        using True dot by (subst path_parts_pushed.simps) simp
      show ?thesis
        unfolding pp pu by (rule "1.IH"(1) [OF True dot])
    next
      case ident
      define i' where "i' = scan_while (\<lambda>c. isalnum c \<or> c = CHR ''_'') path i"
      define key where "key = substr path i (i' - i)"
      have pp: "path_parts_from path i acc = path_parts_from path i' (acc @ [(key, - 1)])"
        unfolding key_def i'_def using True ident by (subst path_parts_from.simps) (simp add: Let_def)
      have pu: "path_parts_pushed path i = (key, - 1) # path_parts_pushed path i'"
        unfolding key_def i'_def using True ident by (subst path_parts_pushed.simps) (simp add: Let_def)
      from "1.IH"(2) [OF True ident(1) ident(2) i'_def] show ?thesis
        unfolding pp pu key_def by (auto split: sum.splits)
    next
      case bracket
      define i' where "i' = scan_while isdigit path (Suc i)"
      show ?thesis
      proof (cases "length path \<le> i' \<or> path ! i' \<noteq> CHR '']''")
        case unclosed: True
        have "path_parts_from path i acc = Inl (JSONParseError ''Expected closing bracket'')"
          using True bracket unclosed unfolding i'_def by (subst path_parts_from.simps) (auto simp: Let_def)
        then show ?thesis by simp
      next
        case closed: False
        show ?thesis
        proof (cases "stoi 10 (substr path (Suc i) (i' - Suc i))")
          case (Inl e)
          have "path_parts_from path i acc = Inl e"
            using True bracket closed Inl unfolding i'_def by (subst path_parts_from.simps) (auto simp: Let_def)
          then show ?thesis by simp
        next
          case (Inr idx)
          have pp: "path_parts_from path i acc = path_parts_from path (Suc i') (acc @ [([], idx)])"
            using True bracket closed Inr unfolding i'_def by (subst path_parts_from.simps) (auto simp: Let_def)
          have pu: "path_parts_pushed path i = ([], idx) # path_parts_pushed path (Suc i')"
            using True bracket closed Inr unfolding i'_def by (subst path_parts_pushed.simps) (auto simp: Let_def)
          from "1.IH"(3) [OF True bracket(1) bracket(2) bracket(3) refl i'_def closed Inr]
          show ?thesis
            unfolding pp pu by (auto split: sum.splits)
        qed
      qed
    next
      case bad
      have "path_parts_from path i acc = Inl (JSONParseError (''Invalid character in path: '' @ [path ! i]))"
        using True bad by (subst path_parts_from.simps) simp
      then show ?thesis by simp
    qed
  qed
qed

lemma read_parts_unresolved: "\<not> resolves ps cur \<Longrightarrow> read_parts ps cur = JNull"
  by (induction ps cur rule: read_parts.induct) (auto split: JSON.splits option.splits)

lemma at_path_from_resolves:
  "at_path_from path i cur =
     (case path_parts_from path i acc of
        Inr parts \<Rightarrow> Inr (read_parts (path_parts_pushed path i) cur)
      | Inl e \<Rightarrow> if resolves (path_parts_pushed path i) cur then Inl e else Inr JNull)"
proof (induction path i acc arbitrary: cur rule: path_parts_from.induct)
  case (1 path i acc)
  show ?case
  proof (cases "i < length path")
    case False
    then show ?thesis
      by (simp add: path_parts_from.simps at_path_from.simps path_parts_pushed.simps)
  next
    case True
    consider (dot) "path ! i = CHR ''.''"
      | (ident) "path ! i \<noteq> CHR ''.''" "isalpha (path ! i) \<or> path ! i = CHR ''_''"
      | (bracket) "path ! i \<noteq> CHR ''.''" "\<not> (isalpha (path ! i) \<or> path ! i = CHR ''_'')"
          "path ! i = CHR ''[''"
      | (bad) "path ! i \<noteq> CHR ''.''" "\<not> (isalpha (path ! i) \<or> path ! i = CHR ''_'')"
          "path ! i \<noteq> CHR ''[''"
      by blast
    then show ?thesis
    proof cases
      case dot
      have pp: "path_parts_from path i acc = path_parts_from path (Suc i) acc"
        using True dot by (subst path_parts_from.simps) simp
      have ap: "at_path_from path i cur = at_path_from path (Suc i) cur"
        using True dot by (subst at_path_from.simps) simp
      have pu: "path_parts_pushed path i = path_parts_pushed path (Suc i)"
        using True dot by (subst path_parts_pushed.simps) simp
      show ?thesis
        unfolding pp ap pu by (rule "1.IH"(1) [OF True dot])
    next
      case ident
      define i' where "i' = scan_while (\<lambda>c. isalnum c \<or> c = CHR ''_'') path i"
      define key where "key = substr path i (i' - i)"
      have pp: "path_parts_from path i acc = path_parts_from path i' (acc @ [(key, - 1)])"
        unfolding key_def i'_def using True ident by (subst path_parts_from.simps) (simp add: Let_def)
      have ap: "at_path_from path i cur =
          (case cur of
             JObject obj \<Rightarrow>
               (case map_find obj key of None \<Rightarrow> Inr JNull | Some v \<Rightarrow> at_path_from path i' v)
           | _ \<Rightarrow> Inr JNull)"
        unfolding key_def i'_def using True ident by (subst at_path_from.simps) (simp add: Let_def)
      have pu: "path_parts_pushed path i = (key, - 1) # path_parts_pushed path i'"
        unfolding key_def i'_def using True ident by (subst path_parts_pushed.simps) (simp add: Let_def)
      note ih = "1.IH"(2) [OF True ident(1) ident(2) i'_def, folded key_def]
      show ?thesis
      proof (cases cur)
        case (JObject obj)
        show ?thesis
        proof (cases "map_find obj key")
          case None
          with JObject show ?thesis
            unfolding pp ap pu by (simp split: sum.splits)
        next
          case (Some v)
          with JObject ih [of v] show ?thesis
            unfolding pp ap pu by (simp split: sum.splits)
        qed
      qed (unfold pp ap pu, simp_all split: sum.splits)
    next
      case bracket
      define i' where "i' = scan_while isdigit path (Suc i)"
      show ?thesis
      proof (cases "length path \<le> i' \<or> path ! i' \<noteq> CHR '']''")
        case unclosed: True
        have "path_parts_from path i acc = Inl (JSONParseError ''Expected closing bracket'')"
          using True bracket unclosed unfolding i'_def by (subst path_parts_from.simps) (auto simp: Let_def)
        moreover have "at_path_from path i cur = Inl (JSONParseError ''Expected closing bracket'')"
          using True bracket unclosed unfolding i'_def by (subst at_path_from.simps) (auto simp: Let_def)
        moreover have "path_parts_pushed path i = []"
          using True bracket unclosed unfolding i'_def by (subst path_parts_pushed.simps) (auto simp: Let_def)
        ultimately show ?thesis by simp
      next
        case closed: False
        show ?thesis
        proof (cases "stoi 10 (substr path (Suc i) (i' - Suc i))")
          case (Inl e)
          have "path_parts_from path i acc = Inl e"
            using True bracket closed Inl unfolding i'_def by (subst path_parts_from.simps) (auto simp: Let_def)
          moreover have "at_path_from path i cur = Inl e"
            using True bracket closed Inl unfolding i'_def by (subst at_path_from.simps) (auto simp: Let_def)
          moreover have "path_parts_pushed path i = []"
            using True bracket closed Inl unfolding i'_def by (subst path_parts_pushed.simps) (auto simp: Let_def)
          ultimately show ?thesis by simp
        next
          case (Inr idx)
          have pp: "path_parts_from path i acc = path_parts_from path (Suc i') (acc @ [([], idx)])"
            using True bracket closed Inr unfolding i'_def by (subst path_parts_from.simps) (auto simp: Let_def)
          have ap: "at_path_from path i cur =
              (case cur of
                 JArray arr \<Rightarrow>
                   if idx < 0 \<or> length arr \<le> nat idx then Inr JNull
                   else at_path_from path (Suc i') (arr ! nat idx)
               | _ \<Rightarrow> Inr JNull)"
            using True bracket closed Inr unfolding i'_def by (subst at_path_from.simps) (auto simp: Let_def)
          have pu: "path_parts_pushed path i = ([], idx) # path_parts_pushed path (Suc i')"
            using True bracket closed Inr unfolding i'_def by (subst path_parts_pushed.simps) (auto simp: Let_def)
          from Inr have nonneg: "0 \<le> idx"
            unfolding i'_def by (rule stoi_index_nonneg)
          note ih = "1.IH"(3) [OF True bracket(1) bracket(2) bracket(3) refl i'_def closed Inr]
          show ?thesis
          proof (cases cur)
            case (JArray arr)
            with ih [of "arr ! nat idx"] nonneg show ?thesis
              unfolding pp ap pu by (simp split: sum.splits)
          qed (unfold pp ap pu, use nonneg in \<open>simp_all split: sum.splits\<close>)
        qed
      qed
    next
      case bad
      have "path_parts_from path i acc = Inl (JSONParseError (''Invalid character in path: '' @ [path ! i]))"
        using True bad by (subst path_parts_from.simps) simp
      moreover have "at_path_from path i cur = Inl (JSONParseError (''Invalid character in path: '' @ [path ! i]))"
        using True bad by (subst at_path_from.simps) simp
      moreover have "path_parts_pushed path i = []"
        using True bad by (subst path_parts_pushed.simps) simp
      ultimately show ?thesis by simp
    qed
  qed
qed
section \<open>Evaluation rules\<close>

lemma replicate_numeral: "replicate (numeral k) x = x # replicate (pred_numeral k) x"
  by (simp add: numeral_eq_Suc)

lemma double_of_int_LLONG_MAX: "double_of_int LLONG_MAX = Double 1 63"
  by (simp add: double_of_int_def LLONG_MAX_def round_binary64_def floor_log2_def bitlen_def
      compute_floorlog div_half_even_def norm_dyadic.simps Let_def)

lemma double_of_int_LLONG_MIN: "double_of_int LLONG_MIN = Double (- 1) 63"
  by (simp add: double_of_int_def LLONG_MIN_def round_binary64_def floor_log2_def bitlen_def
      compute_floorlog div_half_even_def norm_dyadic.simps Let_def)

lemmas dump_eval = dump_number_def double_of_int_LLONG_MAX double_of_int_LLONG_MIN
  double_of_int_def to_long_long_def double_le_def LLONG_MIN_def LLONG_MAX_def to_string_def
  digits10.simps fmt_g_def dec_exponent_def dec_round_def strip_zeros_def with_point_def
  div_half_even_def dump_string_def dump_char_def hex4_def hex_digits.simps char_val_def
  dump_minified_def replicate_numeral Let_def

lemmas char_eval = isalpha_def isalnum_def isdigit_def isspace_def isxdigit_def char_val_def
  char_at_def substr_def skip_ws_def scan_while_takeWhile

lemmas stoi_eval = stoi_def strip_sign_def strip_0x_def is_base_digit_def digits_val_def
  digit_val_def

lemmas stod_eval = stod_def stod_exponent_def round_binary64_def floor_log2_def bitlen_def
  compute_floorlog div_half_even_def norm_dyadic.simps strip_sign_def digits_val_def digit_val_def

lemmas path_eval = at_path_def has_path_def set_path_def at_path_from.simps
  path_parts_from.simps is_null_def map_subscript_def resize_def Let_def

lemmas parse_eval = parse_value.simps parse_array.simps parse_array_loop.simps
  parse_object.simps parse_object_loop.simps parse_string_def parse_string_loop.simps
  parse_string_body_def unicode_escape_def encode_utf8_def char_of_def parse_null_def
  parse_bool_def parse_number_def Let_def

section \<open>Parsing what \<open>dump\<close> wrote\<close>

lemma skip_ws_nonspace: "i < length s \<Longrightarrow> \<not> isspace (s ! i) \<Longrightarrow> skip_ws s i = i"
  by (simp add: skip_ws_def scan_while.simps)

lemma skip_ws_end: "length s \<le> i \<Longrightarrow> skip_ws s i = i"
  by (simp add: skip_ws_def scan_while.simps)

lemma substr_append: "substr (pre @ xs) (length pre + k) n = substr xs k n"
  by (simp add: substr_def)

lemma substr_append0: "substr (pre @ xs) (length pre) n = take n xs"
  by (simp add: substr_def)



text \<open>Hexadecimal digits.\<close>

lemma hex_char_facts:
  assumes "d < 16"
  shows "isxdigit (''0123456789abcdef'' ! d) \<and> digit_val (''0123456789abcdef'' ! d) = d"
proof -
  from assms have "d = 0 \<or> d = 1 \<or> d = 2 \<or> d = 3 \<or> d = 4 \<or> d = 5 \<or> d = 6 \<or> d = 7
      \<or> d = 8 \<or> d = 9 \<or> d = 10 \<or> d = 11 \<or> d = 12 \<or> d = 13 \<or> d = 14 \<or> d = 15"
    by presburger
  then show ?thesis
    by (elim disjE) (simp_all add: isxdigit_def isdigit_def digit_val_def)
qed

lemma hex4_small:
  assumes "n < 256"
  shows "hex4 (int n) = [CHR ''0'', CHR ''0'', ''0123456789abcdef'' ! (n div 16), ''0123456789abcdef'' ! (n mod 16)]"
proof (cases "n < 16")
  case True
  then show ?thesis
    by (simp add: hex4_def hex_digits.simps replicate_numeral)
next
  case False
  with assms have "n div 16 < 16" by simp
  with False show ?thesis
    by (simp add: hex4_def hex_digits.simps [of n] hex_digits.simps [of "n div 16"] replicate_numeral)
qed

lemma stoi_hex4:
  assumes "n < 256"
  shows "stoi 16 (hex4 (int n)) = Inr (int n)"
proof -
  have d1: "n div 16 < 16" using assms by simp
  have d2: "n mod 16 < 16" by simp
  note f1 = hex_char_facts [OF d1] and f2 = hex_char_facts [OF d2]
  have z: "isxdigit CHR ''0''" "\<not> isspace CHR ''0''" "digit_val CHR ''0'' = 0"
    by (simp_all add: isxdigit_def isdigit_def isspace_def digit_val_def)
  have "int (n div 16 * 16 + n mod 16) = int n" by simp
  with assms f1 f2 z show ?thesis
    unfolding hex4_small [OF assms]
    by (simp add: stoi_def strip_sign_def strip_0x_def is_base_digit_def digits_val_def)
qed

lemma parse_string_body_plain:
  assumes "plain_char c"
  shows "parse_string_body (pre @ c # rest) (length pre) res = Inr (False, length pre + 1, res @ [c])"
  using assms by (simp add: parse_string_body_def plain_char_def char_val_def Let_def)

lemma parse_string_body_quote:
  "parse_string_body (pre @ CHR 0x22 # rest) (length pre) res = Inr (True, length pre + 1, res)"
  by (simp add: parse_string_body_def Let_def)

lemma parse_string_body_simple_escape:
  assumes "(esc, c) \<in> {(CHR 0x22, CHR 0x22), (CHR 0x5C, CHR 0x5C), (CHR ''b'', CHR 0x08),
      (CHR ''f'', CHR 0x0C), (CHR ''n'', CHR 0x0A), (CHR ''r'', CHR 0x0D), (CHR ''t'', CHR 0x09)}"
  shows "parse_string_body (pre @ [CHR 0x5C, esc] @ rest) (length pre) res
    = Inr (False, length pre + 2, res @ [c])"
  using assms by (auto simp: parse_string_body_def Let_def nth_append)

lemma parse_string_body_u00:
  assumes "n < 128"
  shows "parse_string_body (pre @ ([CHR 0x5C, CHR ''u''] @ hex4 (int n)) @ rest) (length pre) res
    = Inr (False, length pre + 6, res @ [char_of n])"
proof -
  let ?s = "pre @ ([CHR 0x5C, CHR ''u''] @ hex4 (int n)) @ rest"
  have n256: "n < 256" using assms by simp
  have len: "length (hex4 (int n)) = 4"
    by (simp add: hex4_small [OF n256])
  have sub: "substr ?s (length pre + 2) 4 = hex4 (int n)"
    using len substr_append [of pre "([CHR 0x5C, CHR ''u''] @ hex4 (int n)) @ rest" 2 4]
    by (simp add: substr_def)
  have ue: "unicode_escape ?s (length pre + 2) = Inr (int n, length pre + 6)"
    unfolding unicode_escape_def sub stoi_hex4 [OF n256]
    using assms by (simp add: Let_def)
  have enc: "encode_utf8 res (int n) = res @ [char_of n]"
    using assms by (simp add: encode_utf8_def)
  have at0: "?s ! length pre = CHR 0x5C" by simp
  have at1: "?s ! (length pre + 1) = CHR ''u''"
    by (simp add: nth_append)
  have ln: "\<not> length ?s \<le> length pre + 1" "\<not> length ?s < length pre + 2 + 4"
    using len by simp_all
  show ?thesis
    unfolding parse_string_body_def Let_def
    using at0 at1 ln ue enc by (simp add: add.assoc)
qed

lemma parse_string_body_dump_char:
  assumes "(of_char c :: nat) < 128"
  shows "parse_string_body (pre @ dump_char c @ rest) (length pre) res
    = Inr (False, length pre + length (dump_char c), res @ [c])"
proof -
  consider (special) "c \<in> {CHR 0x22, CHR 0x5C, CHR 0x08, CHR 0x0C, CHR 0x0A, CHR 0x0D, CHR 0x09}"
    | (control) "c \<notin> {CHR 0x22, CHR 0x5C, CHR 0x08, CHR 0x0C, CHR 0x0A, CHR 0x0D, CHR 0x09}"
        "char_val c < 32 \<or> c = CHR 0x7F"
    | (plain) "c \<notin> {CHR 0x22, CHR 0x5C, CHR 0x08, CHR 0x0C, CHR 0x0A, CHR 0x0D, CHR 0x09}"
        "\<not> (char_val c < 32 \<or> c = CHR 0x7F)"
    by blast
  then show ?thesis
  proof cases
    case special
    then obtain esc where e: "dump_char c = [CHR 0x5C, esc]"
      "(esc, c) \<in> {(CHR 0x22, CHR 0x22), (CHR 0x5C, CHR 0x5C), (CHR ''b'', CHR 0x08),
        (CHR ''f'', CHR 0x0C), (CHR ''n'', CHR 0x0A), (CHR ''r'', CHR 0x0D), (CHR ''t'', CHR 0x09)}"
      by (auto simp: dump_char_def)
    from parse_string_body_simple_escape [OF e(2), of pre rest res] show ?thesis
      by (simp add: e(1))
  next
    case control
    define n :: nat where "n = of_char c"
    from assms have n: "n < 128" "char_val c = int n" "char_of n = c"
      by (simp_all add: n_def char_val_def)
    from control have d: "dump_char c = [CHR 0x5C, CHR ''u''] @ hex4 (int n)"
      by (simp add: dump_char_def n)
    have "length (hex4 (int n)) = 4"
      using n(1) by (simp add: hex4_small)
    with parse_string_body_u00 [OF n(1), of pre rest res] show ?thesis
      by (simp add: d n)
  next
    case plain
    with assms have "plain_char c" "dump_char c = [c]"
      by (auto simp: plain_char_def dump_char_def char_val_def)
    with parse_string_body_plain [of c pre rest res] show ?thesis
      by simp
  qed
qed

lemma parse_string_loop_step:
  assumes "parse_string_body (pre @ tok @ rest) (length pre) res = Inr (False, length pre + length tok, res')"
    and "tok \<noteq> []"
  shows "parse_string_loop (pre @ tok @ rest) (length pre) res
    = parse_string_loop ((pre @ tok) @ rest) (length (pre @ tok)) res'"
  using assms by (subst parse_string_loop.simps) (cases tok, simp_all)

lemma parse_string_loop_quote:
  "parse_string_loop (pre @ CHR 0x22 # rest) (length pre) res = Inr (res, length pre + 1)"
  by (subst parse_string_loop.simps) (simp add: parse_string_body_quote)

lemma dump_char_nonempty: "dump_char c \<noteq> []"
  by (simp add: dump_char_def hex4_def)

















lemma parse_value_fuel_max:
  "parse_value f s i = Some r \<Longrightarrow> parse_value (max f g) s i = Some r"
  using parse_fuel_mono(1) [of f s i r "max f g - f"] by simp











text \<open>A value parsed up to the end of the text is the result of \<open>parse\<close>.\<close>

lemma parse_of_value:
  assumes "parse_value f s 0 = Some (Inr (v, length s))"
  shows "parse s = Some (Inr v)"
proof -
  define g where "g = 2 * length s + 1"
  from parse_fuel_enough(1) [of s 0 g] obtain r where r: "parse_value g s 0 = Some r"
    by (auto simp: g_def)
  from parse_value_fuel_max [OF assms, of g] parse_value_fuel [OF r, of "max f g"]
  have "r = Inr (v, length s)"
    by simp
  with r show ?thesis
    by (simp add: parse_def g_def skip_ws_end)
qed

section \<open>The XML parser\<close>

text \<open>The four ways through one turn of the content loop.\<close>

lemma parse_content_end:
  "\<not> idx0 < length s \<Longrightarrow> parse_content (Suc f) s idx0 cs n = Some (Inr (n, idx0, cs))"
  by (simp add: parse_content.simps)

lemma parse_content_close:
  assumes "idx0 < length s" and "idx = skip_ws s idx0"
    and "idx + 1 < length s \<and> s ! idx = CHR ''<'' \<and> s ! (idx + 1) = CHR ''/''"
  shows "parse_content (Suc f) s idx0 cs n = Some (Inr (n, idx, cs))"
  using assms by (simp add: parse_content.simps Let_def)

lemma parse_content_skip:
  assumes "idx0 < length s" and "idx = skip_ws s idx0"
    and "\<not> (idx + 1 < length s \<and> s ! idx = CHR ''<'' \<and> s ! (idx + 1) = CHR ''/'')"
    and "\<not> (idx < length s \<and> s ! idx = CHR ''<'')"
  shows "parse_content (Suc f) s idx0 cs n = parse_content f s (idx + 1) cs n"
  using assms by (auto simp: parse_content.simps Let_def)

lemma parse_content_child:
  assumes "idx0 < length s" and "idx = skip_ws s idx0"
    and "\<not> (idx + 1 < length s \<and> s ! idx = CHR ''<'' \<and> s ! (idx + 1) = CHR ''/'')"
    and "idx < length s \<and> s ! idx = CHR ''<''"
  shows "parse_content (Suc f) s idx0 cs n =
     (case parse_node f s idx of
        None \<Rightarrow> None
      | Some (Inl e) \<Rightarrow> Some (Inl e)
      | Some (Inr (child, idx')) \<Rightarrow>
          parse_content f s idx' idx'
            (add_child (if idx > cs then add_text n (decode_text (substr s cs (idx - cs))) else n)
               child))"
  using assms by (auto simp: parse_content.simps Let_def)

lemma xml_fuel_mono:
  "parse_node f s i = Some r \<Longrightarrow> parse_node (f + k) s i = Some r"
  "parse_content f s i cs n = Some r' \<Longrightarrow> parse_content (f + k) s i cs n = Some r'"
proof (induction f s i and f s i cs n arbitrary: r and r' rule: parse_node_parse_content.induct)
  case (1 s idx0)
  then show ?case by (simp add: parse_node.simps)
next
  case (2 fuel s idx0)
  show ?case
  proof (cases "open_tag s idx0")
    case (Inl e)
    with "2.prems" show ?thesis
      by (simp add: parse_node.simps)
  next
    case (Inr p)
    obtain node idx sc where p: "p = (node, idx, sc)" by (cases p)
    show ?thesis
    proof (cases sc)
      case True
      with Inr p "2.prems" show ?thesis
        by (simp add: parse_node.simps)
    next
      case False
      from Inr p False "2.prems" obtain a where a: "parse_content fuel s idx idx node = Some a"
        by (auto simp: parse_node.simps split: option.splits)
      have "parse_content (fuel + k) s idx idx node = Some a"
        using "2.IH" [OF Inr p [symmetric] refl False a] .
      with a Inr p False "2.prems" show ?thesis
        by (simp add: parse_node.simps)
    qed
  qed
next
  case (3 s idx0 content_start node)
  then show ?case by (simp add: parse_content.simps)
next
  case (4 fuel s idx0 content_start node)
  define idx where "idx = skip_ws s idx0"
  show ?case
  proof (cases "idx0 < length s")
    case False
    with "4.prems" show ?thesis
      by (simp add: parse_content.simps)
  next
    case lt: True
    show ?thesis
    proof (cases "idx + 1 < length s \<and> s ! idx = CHR ''<'' \<and> s ! (idx + 1) = CHR ''/''")
      case True
      from "4.prems" show ?thesis
        unfolding parse_content_close [OF lt idx_def True] add_Suc by simp
    next
      case nc: False
      show ?thesis
      proof (cases "idx < length s \<and> s ! idx = CHR ''<''")
        case False
        note e = parse_content_skip [OF lt idx_def nc False]
        from "4.prems" have "parse_content fuel s (idx + 1) content_start node = Some r'"
          unfolding e .
        from "4.IH"(3) [OF lt idx_def nc False this] show ?thesis
          unfolding add_Suc e .
      next
        case ch: True
        note e = parse_content_child [OF lt idx_def nc ch]
        define node' where "node' = (if idx > content_start
          then add_text node (decode_text (substr s content_start (idx - content_start))) else node)"
        from "4.prems" obtain a where a: "parse_node fuel s idx = Some a"
          unfolding e by (auto split: option.splits)
        have a': "parse_node (fuel + k) s idx = Some a"
          using "4.IH"(1) [OF lt idx_def nc ch node'_def a] .
        show ?thesis
        proof (cases a)
          case (Inl e')
          with a a' "4.prems" show ?thesis
            unfolding add_Suc e by simp
        next
          case (Inr q)
          obtain child idx' where q: "q = (child, idx')" by (cases q)
          have "parse_content fuel s idx' idx' (add_child node' child) = Some r'"
            using a Inr q "4.prems" unfolding e node'_def by simp
          from "4.IH"(2) [OF lt idx_def nc ch node'_def a Inr q [symmetric] this]
          show ?thesis
            using a' Inr q unfolding add_Suc e node'_def by simp
        qed
      qed
    qed
  qed
qed

lemma parse_node_fuel:
  assumes "parse_node f s i = Some r" and "f \<le> f'"
  shows "parse_node f' s i = Some r"
  using xml_fuel_mono(1) [OF assms(1), of "f' - f"] assms(2) by simp

lemma xml_parse_eq:
  assumes "skip_ws_and_prolog s 0 = Inr i" and "parse_node f s i = Some r"
    and "f \<le> 2 * length s + 1"
  shows "xml_parse s =
     (case r of
        Inl e \<Rightarrow> Some (Inl e)
      | Inr (root_node, idx) \<Rightarrow>
          if skip_ws s idx < length s
          then Some (Inl (XMLParseError
                 (''Extra characters after root element at position ''
                    @ to_string (int (skip_ws s idx)))))
          else Some (Inr root_node))"
  using parse_node_fuel [OF assms(2,3)] assms(1)
  by (auto simp: xml_parse_def Let_def split: sum.splits)

text \<open>Every call moves the cursor forward, and the fuel that \<open>xml_parse\<close> gives suffices.\<close>

lemma skip_ws_ge: "i \<le> skip_ws s i"
  by (simp add: skip_ws_def scan_while_ge)

lemma parse_attributes_idx:
  "parse_attributes s i attrs = Inr (attrs', i') \<Longrightarrow> i \<le> i'"
proof (induction s i attrs rule: parse_attributes.induct)
  case (1 s idx attrs)
  show ?case
  proof (cases "idx < length s \<and> s ! idx \<noteq> CHR ''>'' \<and> s ! idx \<noteq> CHR ''/''")
    case False
    with "1.prems" show ?thesis
      by (subst (asm) parse_attributes.simps) auto
  next
    case True
    show ?thesis
    proof (cases "parse_attribute s idx")
      case (Inl e)
      with True "1.prems" show ?thesis
        by (subst (asm) parse_attributes.simps) simp
    next
      case (Inr p)
      obtain key val idx1 where p: "p = (key, val, idx1)" by (cases p)
      from Inr p have "idx < idx1" by (auto dest: parse_attribute_idx)
      moreover have "parse_attributes s idx1 (map_assign attrs key val) = Inr (attrs', i')"
        using True Inr p "1.prems" by (subst (asm) parse_attributes.simps) simp
      from "1.IH" [OF True Inr p [symmetric] refl this] have "idx1 \<le> i'" .
      ultimately show ?thesis by simp
    qed
  qed
qed

lemma open_tag_idx:
  assumes "open_tag s i = Inr (node, idx, sc)"
  shows "i < idx \<and> (\<not> sc \<longrightarrow> idx \<le> length s)"
proof -
  define i0 where "i0 = skip_ws s i"
  define i1 where "i1 = skip_ws s (scan_while is_name_char s (i0 + 1))"
  have a: "i \<le> i0" unfolding i0_def by (rule skip_ws_ge)
  have b: "i0 + 1 \<le> i1"
    unfolding i1_def using scan_while_ge [of "i0 + 1" is_name_char s]
      skip_ws_ge [of "scan_while is_name_char s (i0 + 1)" s] by simp
  from assms obtain attrs i2 where pa: "parse_attributes s i1 [] = Inr (attrs, i2)"
    by (auto simp: open_tag_def Let_def i0_def i1_def split: if_splits sum.splits)
  then have c: "i1 \<le> i2" by (rule parse_attributes_idx)
  from assms pa have "i2 < idx \<and> (\<not> sc \<longrightarrow> idx \<le> length s)"
    by (auto simp: open_tag_def Let_def i0_def i1_def split: if_splits)
  with a b c show ?thesis by simp
qed

lemma close_node_idx: "close_node s i cs n = Inr (n', i') \<Longrightarrow> i < i'"
  using scan_while_ge [of "i + 2" "\<lambda>c. c \<noteq> CHR ''>''" s]
  by (auto simp: close_node_def Let_def split: if_splits)

lemma xml_progress:
  "parse_node f s i = Some (Inr (n, i')) \<Longrightarrow> i < i'"
  "parse_content f s i cs n0 = Some (Inr (n1, i1, cs1)) \<Longrightarrow> i \<le> i1"
proof (induction f s i and f s i cs n0 arbitrary: n i' and n1 i1 cs1
    rule: parse_node_parse_content.induct)
  case (1 s idx0)
  then show ?case by (simp add: parse_node.simps)
next
  case (2 fuel s idx0)
  from "2.prems" obtain node idx sc where ot: "open_tag s idx0 = Inr (node, idx, sc)"
    by (cases "open_tag s idx0") (auto simp: parse_node.simps)
  note oi = open_tag_idx [OF ot]
  show ?case
  proof (cases sc)
    case True
    with ot "2.prems" oi show ?thesis
      by (simp add: parse_node.simps)
  next
    case False
    from "2.prems" ot False obtain n1 i1 cs1 where
      pc: "parse_content fuel s idx idx node = Some (Inr (n1, i1, cs1))"
      and cl: "close_node s i1 cs1 n1 = Inr (n, i')"
      by (auto simp: parse_node.simps split: option.splits sum.splits)
    from "2.IH" [OF ot refl refl False pc] have "idx \<le> i1" .
    with oi close_node_idx [OF cl] show ?thesis by simp
  qed
next
  case (3 s idx0 content_start node)
  then show ?case by (simp add: parse_content.simps)
next
  case (4 fuel s idx0 content_start node)
  define idx where "idx = skip_ws s idx0"
  have ge: "idx0 \<le> idx" unfolding idx_def by (rule skip_ws_ge)
  show ?case
  proof (cases "idx0 < length s")
    case False
    with "4.prems" show ?thesis
      by (simp add: parse_content_end)
  next
    case lt: True
    show ?thesis
    proof (cases "idx + 1 < length s \<and> s ! idx = CHR ''<'' \<and> s ! (idx + 1) = CHR ''/''")
      case True
      from "4.prems" ge show ?thesis
        unfolding parse_content_close [OF lt idx_def True] by simp
    next
      case nc: False
      show ?thesis
      proof (cases "idx < length s \<and> s ! idx = CHR ''<''")
        case False
        note e = parse_content_skip [OF lt idx_def nc False]
        from "4.prems" have "parse_content fuel s (idx + 1) content_start node = Some (Inr (n1, i1, cs1))"
          unfolding e .
        from "4.IH"(3) [OF lt idx_def nc False this] ge show ?thesis
          by simp
      next
        case ch: True
        note e = parse_content_child [OF lt idx_def nc ch]
        define node' where "node' = (if idx > content_start
          then add_text node (decode_text (substr s content_start (idx - content_start))) else node)"
        from "4.prems" obtain child idx' where a: "parse_node fuel s idx = Some (Inr (child, idx'))"
          and r: "parse_content fuel s idx' idx' (add_child node' child) = Some (Inr (n1, i1, cs1))"
          unfolding e node'_def by (auto split: option.splits sum.splits)
        from "4.IH"(1) [OF lt idx_def nc ch node'_def a] have "idx < idx'" .
        moreover from "4.IH"(2) [OF lt idx_def nc ch node'_def a refl refl r] have "idx' \<le> i1" .
        ultimately show ?thesis using ge by simp
      qed
    qed
  qed
qed

lemma xml_fuel_enough:
  "2 * (length s - i) \<le> f \<Longrightarrow> 0 < f \<Longrightarrow> parse_node f s i \<noteq> None"
  "2 * (length s - i) + 1 \<le> f \<Longrightarrow> parse_content f s i cs n0 \<noteq> None"
proof (induction f s i and f s i cs n0 rule: parse_node_parse_content.induct)
  case (1 s idx0)
  then show ?case by simp
next
  case (2 fuel s idx0)
  show ?case
  proof (cases "open_tag s idx0")
    case (Inl e)
    then show ?thesis by (simp add: parse_node.simps)
  next
    case (Inr p)
    obtain node idx sc where p: "p = (node, idx, sc)" by (cases p)
    note oi = open_tag_idx [OF Inr [unfolded p]]
    show ?thesis
    proof (cases sc)
      case True
      with Inr p show ?thesis by (simp add: parse_node.simps)
    next
      case False
      with oi "2.prems" have "2 * (length s - idx) + 1 \<le> fuel"
        by arith
      from "2.IH" [OF Inr p [symmetric] refl False this]
      have "parse_content fuel s idx idx node \<noteq> None" .
      with Inr p False show ?thesis
        by (auto simp: parse_node.simps split: sum.splits)
    qed
  qed
next
  case (3 s idx0 content_start node)
  then show ?case by simp
next
  case (4 fuel s idx0 content_start node)
  define idx where "idx = skip_ws s idx0"
  have ge: "idx0 \<le> idx" unfolding idx_def by (rule skip_ws_ge)
  show ?case
  proof (cases "idx0 < length s")
    case False
    then show ?thesis by (simp add: parse_content_end)
  next
    case lt: True
    show ?thesis
    proof (cases "idx + 1 < length s \<and> s ! idx = CHR ''<'' \<and> s ! (idx + 1) = CHR ''/''")
      case True
      show ?thesis
        unfolding parse_content_close [OF lt idx_def True] by simp
    next
      case nc: False
      show ?thesis
      proof (cases "idx < length s \<and> s ! idx = CHR ''<''")
        case False
        from lt ge "4.prems" have "2 * (length s - (idx + 1)) + 1 \<le> fuel"
          by arith
        from "4.IH"(3) [OF lt idx_def nc False this] show ?thesis
          unfolding parse_content_skip [OF lt idx_def nc False] .
      next
        case ch: True
        note e = parse_content_child [OF lt idx_def nc ch]
        define node' where "node' = (if idx > content_start
          then add_text node (decode_text (substr s content_start (idx - content_start))) else node)"
        from lt ge "4.prems" have f1: "2 * (length s - idx) \<le> fuel" "0 < fuel"
          by arith+
        from "4.IH"(1) [OF lt idx_def nc ch node'_def f1]
        obtain a where a: "parse_node fuel s idx = Some a" by auto
        show ?thesis
        proof (cases a)
          case (Inl e')
          with a show ?thesis unfolding e by simp
        next
          case (Inr q)
          obtain child idx' where q: "q = (child, idx')" by (cases q)
          from a Inr q have "idx < idx'" by (auto dest: xml_progress(1))
          with lt ge "4.prems" have "2 * (length s - idx') + 1 \<le> fuel"
            by arith
          from "4.IH"(2) [OF lt idx_def nc ch node'_def a Inr q [symmetric] this]
          show ?thesis
            unfolding e node'_def using a Inr q by simp
        qed
      qed
    qed
  qed
qed

lemma xml_parse_returns: "xml_parse s \<noteq> None"
proof (cases "skip_ws_and_prolog s 0")
  case (Inl e)
  then show ?thesis by (simp add: xml_parse_def)
next
  case (Inr idx)
  have "parse_node (2 * length s + 1) s idx \<noteq> None"
    by (rule xml_fuel_enough(1)) simp_all
  with Inr show ?thesis
    by (auto simp: xml_parse_def Let_def split: sum.splits)
qed

text \<open>
  The loop of \<open>parse_content\<close> stores into the node what \<open>content_items\<close> records: the
  decoded runs at the end of the text, the children at the end of the children.
\<close>

lemma content_items_end:
  "\<not> idx0 < length s \<Longrightarrow> content_items (Suc f) s idx0 cs = Some (Inr ([], idx0, cs))"
  by (simp add: content_items.simps)

lemma content_items_close:
  assumes "idx0 < length s" and "idx = skip_ws s idx0"
    and "idx + 1 < length s \<and> s ! idx = CHR ''<'' \<and> s ! (idx + 1) = CHR ''/''"
  shows "content_items (Suc f) s idx0 cs = Some (Inr ([], idx, cs))"
  using assms by (simp add: content_items.simps Let_def)

lemma content_items_skip:
  assumes "idx0 < length s" and "idx = skip_ws s idx0"
    and "\<not> (idx + 1 < length s \<and> s ! idx = CHR ''<'' \<and> s ! (idx + 1) = CHR ''/'')"
    and "\<not> (idx < length s \<and> s ! idx = CHR ''<'')"
  shows "content_items (Suc f) s idx0 cs = content_items f s (idx + 1) cs"
  using assms by (auto simp: content_items.simps Let_def)

lemma content_items_child:
  assumes "idx0 < length s" and "idx = skip_ws s idx0"
    and "\<not> (idx + 1 < length s \<and> s ! idx = CHR ''<'' \<and> s ! (idx + 1) = CHR ''/'')"
    and "idx < length s \<and> s ! idx = CHR ''<''"
  shows "content_items (Suc f) s idx0 cs =
     (case parse_node f s idx of
        None \<Rightarrow> None
      | Some (Inl e) \<Rightarrow> Some (Inl e)
      | Some (Inr (child, idx')) \<Rightarrow>
          (case content_items f s idx' idx' of
             None \<Rightarrow> None
           | Some (Inl e) \<Rightarrow> Some (Inl e)
           | Some (Inr (items, r)) \<Rightarrow> Some (Inr (run_item s cs idx @ Child child # items, r))))"
  using assms by (auto simp: content_items.simps Let_def)

lemma runs_append: "runs (xs @ ys) = runs xs @ runs ys"
  by (induction xs rule: runs.induct) simp_all

lemma children_append: "children (xs @ ys) = children xs @ children ys"
  by (induction xs rule: children.induct) simp_all

lemma add_run:
  "(if idx > cs then add_text n (decode_text (substr s cs (idx - cs))) else n)
     = Node (name n) (text_content n @ concat (map decode_text (runs (run_item s cs idx))))
         (attributes n) (child_nodes n @ children (run_item s cs idx))"
  by (simp add: run_item_def add_text_def)

lemma parse_content_items:
  "parse_content f s i cs n =
     (case content_items f s i cs of
        None \<Rightarrow> None
      | Some (Inl e) \<Rightarrow> Some (Inl e)
      | Some (Inr (items, i', cs')) \<Rightarrow>
          Some (Inr (Node (name n) (text_content n @ concat (map decode_text (runs items)))
                       (attributes n) (child_nodes n @ children items), i', cs')))"
proof (induction f arbitrary: i cs n)
  case 0
  show ?case by (simp add: parse_content.simps content_items.simps)
next
  case (Suc f)
  define idx where "idx = skip_ws s i"
  show ?case
  proof (cases "i < length s")
    case False
    then show ?thesis
      by (simp add: parse_content_end content_items_end)
  next
    case lt: True
    show ?thesis
    proof (cases "idx + 1 < length s \<and> s ! idx = CHR ''<'' \<and> s ! (idx + 1) = CHR ''/''")
      case True
      show ?thesis
        unfolding parse_content_close [OF lt idx_def True] content_items_close [OF lt idx_def True]
        by simp
    next
      case nc: False
      show ?thesis
      proof (cases "idx < length s \<and> s ! idx = CHR ''<''")
        case False
        show ?thesis
          unfolding parse_content_skip [OF lt idx_def nc False]
            content_items_skip [OF lt idx_def nc False]
          by (rule Suc.IH)
      next
        case ch: True
        define n' where "n' = (if idx > cs then add_text n (decode_text (substr s cs (idx - cs))) else n)"
        have n': "n' = Node (name n) (text_content n @ concat (map decode_text (runs (run_item s cs idx))))
            (attributes n) (child_nodes n @ children (run_item s cs idx))"
          unfolding n'_def by (rule add_run)
        show ?thesis
        proof (cases "parse_node f s idx")
          case None
          then show ?thesis
            unfolding parse_content_child [OF lt idx_def nc ch] content_items_child [OF lt idx_def nc ch]
            by simp
        next
          case (Some a)
          show ?thesis
          proof (cases a)
            case (Inl e)
            with Some show ?thesis
              unfolding parse_content_child [OF lt idx_def nc ch]
                content_items_child [OF lt idx_def nc ch]
              by simp
          next
            case (Inr q)
            obtain child idx' where q: "q = (child, idx')" by (cases q)
            have pc: "parse_content (Suc f) s i cs n = parse_content f s idx' idx' (add_child n' child)"
              unfolding parse_content_child [OF lt idx_def nc ch] n'_def using Some Inr q by simp
            have ci: "content_items (Suc f) s i cs =
                (case content_items f s idx' idx' of
                   None \<Rightarrow> None
                 | Some (Inl e) \<Rightarrow> Some (Inl e)
                 | Some (Inr (items, r)) \<Rightarrow> Some (Inr (run_item s cs idx @ Child child # items, r)))"
              unfolding content_items_child [OF lt idx_def nc ch] using Some Inr q by simp
            show ?thesis
              unfolding pc ci Suc.IH [of idx' idx' "add_child n' child"]
              by (auto simp: n' add_child_def runs_append children_append
                  split: option.splits sum.splits)
          qed
        qed
      qed
    qed
  qed
qed

lemmas xml_eval = open_tag_def close_node_def parse_attributes.simps parse_attribute_def
  decode_text_def decode_text_from.simps find_char_def parse_entity_def is_name_char_def
  is_key_char_def new_node_def add_text_def add_child_def parse_node.simps parse_content.simps
  skip_ws_and_prolog.simps Let_def

section \<open>Unicode escapes in a string literal\<close>

text \<open>
  A literal may start with any ASCII text, written as \<open>dump\<close> escapes it; the loop of
  \<^verbatim>\<open>parse_string\<close> reads it and goes on with what follows.
\<close>

lemma parse_string_loop_escaped:
  assumes "\<forall>c \<in> set str. (of_char c :: nat) < 128"
  shows "parse_string_loop (pre @ concat (map dump_char str) @ rest) (length pre) res
    = parse_string_loop ((pre @ concat (map dump_char str)) @ rest)
        (length (pre @ concat (map dump_char str))) (res @ str)"
  using assms
proof (induction str arbitrary: pre res)
  case Nil
  then show ?case
    by simp
next
  case (Cons c cs)
  let ?rest = "concat (map dump_char cs) @ rest"
  from Cons.prems have c: "(of_char c :: nat) < 128" by simp
  have "parse_string_loop (pre @ dump_char c @ ?rest) (length pre) res
      = parse_string_loop ((pre @ dump_char c) @ ?rest) (length (pre @ dump_char c)) (res @ [c])"
    by (rule parse_string_loop_step [OF parse_string_body_dump_char [OF c] dump_char_nonempty])
  also have "\<dots> = parse_string_loop (((pre @ dump_char c) @ concat (map dump_char cs)) @ rest)
      (length ((pre @ dump_char c) @ concat (map dump_char cs))) ((res @ [c]) @ cs)"
    using Cons.prems by (intro Cons.IH) simp
  finally show ?case
    by simp
qed

lemma parse_string_body_unicode:
  assumes "length h = 4" and "stoi 16 h = Inr cp"
  shows "parse_string_body (pre @ [CHR 0x5C, CHR ''u''] @ h @ rest) (length pre) res =
     (if 0xD800 \<le> cp \<and> cp \<le> 0xDBFF then
        (case low_surrogate rest of
           None \<Rightarrow> Inl (JSONParseError ''Invalid unicode escape sequence'')
         | Some low \<Rightarrow>
             Inr (False, length pre + 12,
               encode_utf8 res (0x10000 + (push_bit 10 (cp - 0xD800) OR (low - 0xDC00)))))
      else if 0xDC00 \<le> cp \<and> cp \<le> 0xDFFF
      then Inl (JSONParseError ''Invalid unicode escape sequence'')
      else Inr (False, length pre + 6, encode_utf8 res cp))"
proof -
  define s where "s = pre @ [CHR 0x5C, CHR ''u''] @ h @ rest"
  define i where "i = length pre + 2"
  have s': "s = (pre @ [CHR 0x5C, CHR ''u'']) @ h @ rest"
    by (simp add: s_def)
  have s'': "s = (pre @ [CHR 0x5C, CHR ''u''] @ h) @ rest"
    by (simp add: s_def)
  have at0: "s ! length pre = CHR 0x5C" by (simp add: s_def)
  have at1: "s ! (length pre + 1) = CHR ''u''"
    by (simp add: s_def nth_append)
  have len: "length s = length pre + 6 + length rest"
    using assms(1) by (simp add: s_def)
  have sub: "substr s i 4 = h"
    using assms(1) by (simp add: s' i_def substr_def)
  have sub2: "substr s (i + 4) 2 = take 2 rest"
    using assms(1) by (simp add: s'' i_def substr_def)
  have sub3: "substr s (i + 4 + 2) 4 = take 4 (drop 2 rest)"
    using assms(1) by (simp add: s'' i_def substr_def)
  have l6: "length s < i + 4 + 6 \<longleftrightarrow> \<not> 6 \<le> length rest"
    using len by (auto simp: i_def)
  have ue: "unicode_escape s i =
     (if 0xD800 \<le> cp \<and> cp \<le> 0xDBFF then
        (case low_surrogate rest of
           None \<Rightarrow> (if \<not> 6 \<le> length rest \<or> take 2 rest \<noteq> [CHR 0x5C, CHR ''u'']
              then Inl (JSONParseError
                ''Invalid surrogate pair: high surrogate not followed by low surrogate escape'')
              else (case stoi 16 (take 4 (drop 2 rest)) of Inl e \<Rightarrow> Inl e
                  | Inr low \<Rightarrow> Inl (JSONParseError
                      ''Invalid surrogate pair: high surrogate not followed by a low surrogate'')))
         | Some low \<Rightarrow>
             Inr (0x10000 + (push_bit 10 (cp - 0xD800) OR (low - 0xDC00)), i + 4 + 6))
      else if 0xDC00 \<le> cp \<and> cp \<le> 0xDFFF
      then Inl (JSONParseError ''Invalid surrogate pair: low surrogate without high surrogate'')
      else Inr (cp, i + 4))"
    unfolding unicode_escape_def sub assms(2) Let_def sub2 sub3 l6 low_surrogate_def
    by (auto split: sum.splits)
  have ln: "\<not> length s \<le> length pre + 1" "\<not> length s < length pre + 1 + 1 + 4"
    using len by simp_all
  have body: "parse_string_body s (length pre) res =
      (case unicode_escape s i of
         Inl e \<Rightarrow> Inl (JSONParseError ''Invalid unicode escape sequence'')
       | Inr (codepoint, idx3) \<Rightarrow> Inr (False, idx3, encode_utf8 res codepoint))"
    unfolding parse_string_body_def Let_def i_def
    using at0 at1 ln by (simp add: add.assoc)
  show ?thesis
    unfolding s_def [symmetric] body ue
    by (auto simp: i_def split: option.splits sum.splits)
qed

lemma parse_string_literal:
  "parse_value (Suc 0) (CHR 0x22 # t) 0 =
     Some (case parse_string_loop (CHR 0x22 # t) 1 [] of
             Inl e \<Rightarrow> Inl e
           | Inr (res, idx') \<Rightarrow>
               if length (CHR 0x22 # t) < idx' then Inl (JSONParseError ''Unterminated string'')
               else Inr (JString res, idx'))"
  by (simp add: parse_value.simps skip_ws_nonspace isspace_def Let_def parse_string_def char_at_def)

lemma parse_escaped_then:
  assumes "\<forall>c \<in> set str. (of_char c :: nat) < 128"
    and "parse_string_body ((CHR 0x22 # concat (map dump_char str)) @ tok @ rest)
      (length (CHR 0x22 # concat (map dump_char str))) str = Inl e"
    and "tok \<noteq> []"
  shows "parse (CHR 0x22 # concat (map dump_char str) @ tok @ rest) = Some (Inl e)"
proof -
  define s where "s = CHR 0x22 # concat (map dump_char str) @ tok @ rest"
  define esc where "esc = concat (map dump_char str)"
  have "parse_string_loop ([CHR 0x22] @ concat (map dump_char str) @ tok @ rest) (length [CHR 0x22]) []
      = parse_string_loop (([CHR 0x22] @ concat (map dump_char str)) @ tok @ rest)
          (length ([CHR 0x22] @ concat (map dump_char str))) ([] @ str)"
    by (rule parse_string_loop_escaped [OF assms(1)])
  then have "parse_string_loop s 1 [] = parse_string_loop s (Suc (length esc)) str"
    by (simp add: s_def esc_def)
  also have "\<dots> = Inl e"
    using assms(2,3)
    by (subst parse_string_loop.simps) (cases tok, simp_all add: s_def esc_def)
  finally have "parse_value (Suc 0) s 0 = Some (Inl e)"
    unfolding s_def parse_string_literal by simp
  from parse_eq [OF this] show ?thesis
    by (simp add: s_def)
qed

lemma parse_escaped_unicode:
  assumes "\<forall>c \<in> set str. (of_char c :: nat) < 128"
    and "length h = 4" and "stoi 16 h = Inr cp" and "cp < 0xD800 \<or> 0xDFFF < cp"
  shows "parse (CHR 0x22 # concat (map dump_char str) @ [CHR 0x5C, CHR ''u''] @ h @ [CHR 0x22])
    = Some (Inr (JString (encode_utf8 str cp)))"
proof -
  define esc where "esc = concat (map dump_char str)"
  define tok where "tok = [CHR 0x5C, CHR ''u''] @ h"
  define s where "s = CHR 0x22 # esc @ tok @ [CHR 0x22]"
  have ltok: "length tok = 6" "tok \<noteq> []"
    using assms(2) by (simp_all add: tok_def)
  have "parse_string_loop ([CHR 0x22] @ concat (map dump_char str) @ tok @ [CHR 0x22]) (length [CHR 0x22]) []
      = parse_string_loop (([CHR 0x22] @ concat (map dump_char str)) @ tok @ [CHR 0x22])
          (length ([CHR 0x22] @ concat (map dump_char str))) ([] @ str)"
    by (rule parse_string_loop_escaped [OF assms(1)])
  then have "parse_string_loop s 1 [] = parse_string_loop ((CHR 0x22 # esc) @ tok @ [CHR 0x22])
      (length (CHR 0x22 # esc)) str"
    by (simp add: s_def esc_def)
  also have "\<dots> = parse_string_loop (((CHR 0x22 # esc) @ tok) @ [CHR 0x22])
      (length ((CHR 0x22 # esc) @ tok)) (encode_utf8 str cp)"
  proof (rule parse_string_loop_step [OF _ ltok(2)])
    show "parse_string_body ((CHR 0x22 # esc) @ tok @ [CHR 0x22]) (length (CHR 0x22 # esc)) str
        = Inr (False, length (CHR 0x22 # esc) + length tok, encode_utf8 str cp)"
      using parse_string_body_unicode [OF assms(2,3), of "CHR 0x22 # esc" "[CHR 0x22]" str] assms(4)
      unfolding tok_def ltok [unfolded tok_def] by auto
  qed
  also have "\<dots> = Inr (encode_utf8 str cp, length ((CHR 0x22 # esc) @ tok) + 1)"
    by (rule parse_string_loop_quote)
  finally have "parse_value (Suc 0) s 0 = Some (Inr (JString (encode_utf8 str cp), length s))"
    unfolding s_def parse_string_literal by simp
  then have "parse s = Some (Inr (JString (encode_utf8 str cp)))"
    by (rule parse_of_value)
  then show ?thesis
    by (simp add: s_def esc_def tok_def)
qed

section \<open>The children of a node\<close>

text \<open>What the loop of \<^verbatim>\<open>operator[]\<close> finds is the first child with the name.\<close>

lemma find_child_Some:
  "find_child cs k = Some i \<Longrightarrow>
     i < length cs \<and> name (cs ! i) = k \<and> (\<forall>j<i. name (cs ! j) \<noteq> k)"
proof (induction cs arbitrary: i)
  case Nil
  then show ?case by simp
next
  case (Cons c cs)
  show ?case
  proof (cases "name c = k")
    case True
    with Cons.prems show ?thesis by simp
  next
    case False
    with Cons.prems obtain i' where i': "find_child cs k = Some i'" "i = Suc i'"
      by auto
    from Cons.IH [OF i'(1)] False i'(2) show ?thesis
      by (auto simp: nth_Cons split: nat.splits)
  qed
qed

lemma find_child_None: "find_child cs k = None \<longleftrightarrow> (\<forall>c \<in> set cs. name c \<noteq> k)"
  by (induction cs) auto

section \<open>The order of keys and attributes\<close>

text \<open>
  The operations of the map keep the keys in ascending order, and so does every mutation of a
  value and of a node.
\<close>

lemma map_assign_keys: "set (map fst (map_assign m k v)) = insert k (set (map fst m))"
  by (induction m k v rule: map_assign.induct) auto

lemma map_assign_sorted:
  "sorted_wrt (<) (map fst m) \<Longrightarrow> sorted_wrt (<) (map fst (map_assign m k v))"
proof (induction m k v rule: map_assign.induct)
  case (1 k v)
  then show ?case by simp
next
  case (2 k' v' m k v)
  show ?case
  proof (cases "k < k'")
    case True
    with 2 show ?thesis by auto
  next
    case False
    show ?thesis
    proof (cases "k = k'")
      case True
      with 2 show ?thesis by simp
    next
      case ne: False
      with False have lt: "k' < k" by simp
      from 2 False ne have "sorted_wrt (<) (map fst (map_assign m k v))"
        by simp
      moreover have "\<forall>x \<in> set (map fst (map_assign m k v)). k' < x"
        using "2.prems" lt unfolding map_assign_keys by auto
      ultimately show ?thesis
        using False ne by simp
    qed
  qed
qed

lemma map_assign_values: "set (map_assign m k v) \<subseteq> insert (k, v) (set m)"
  by (induction m k v rule: map_assign.induct) auto

lemma map_erase_subset: "set (map_erase m k) \<subseteq> set m"
  by (induction m k rule: map_erase.induct) auto

lemma map_erase_sorted:
  "sorted_wrt (<) (map fst m) \<Longrightarrow> sorted_wrt (<) (map fst (map_erase m k))"
proof (induction m k rule: map_erase.induct)
  case (1 k)
  then show ?case by simp
next
  case (2 k' v m k)
  from map_erase_subset [of m k] have "\<forall>x \<in> set (map_erase m k). x \<in> set m"
    by auto
  with 2 show ?case
    by auto
qed

lemma map_find_mem: "map_find m k = Some v \<Longrightarrow> (k, v) \<in> set m"
  by (induction m k rule: map_find.induct) (auto split: if_splits)

lemma sorted_keys_assign:
  assumes "sorted_keys (JObject obj)" and "sorted_keys v"
  shows "sorted_keys (JObject (map_assign obj k v))"
  using assms map_assign_values [of obj k v] by (auto simp: map_assign_sorted)

lemma sorted_keys_assign_all:
  assumes "sorted_keys (JObject obj)" and "\<forall>kv \<in> set kvs. sorted_keys (snd kv)"
  shows "sorted_keys (JObject (foldl (\<lambda>obj (k, v). map_assign obj k v) obj kvs))"
  using assms
proof (induction kvs arbitrary: obj)
  case Nil
  then show ?case by simp
next
  case (Cons kv kvs)
  obtain k v where kv: "kv = (k, v)" by (cases kv)
  from Cons.prems have "sorted_keys (JObject (map_assign obj k v))"
    by (intro sorted_keys_assign) (simp_all add: kv)
  from Cons.IH [OF this] Cons.prems(2) show ?case
    by (simp add: kv)
qed

lemma sorted_keys_subscript:
  assumes "sorted_keys (JObject obj)" and "map_subscript JNull obj k = (child, obj')"
  shows "sorted_keys child \<and> sorted_keys (JObject obj')"
proof (cases "map_find obj k")
  case None
  with assms(2) have "child = JNull" "obj' = map_assign obj k JNull"
    by (simp_all add: map_subscript_def)
  with assms(1) sorted_keys_assign [of obj JNull k] show ?thesis by simp
next
  case (Some v)
  with assms(2) have "child = v" "obj' = obj"
    by (simp_all add: map_subscript_def)
  with assms(1) map_find_mem [OF Some] show ?thesis by auto
qed

lemma sorted_keys_resize:
  "\<forall>v \<in> set arr. sorted_keys v \<Longrightarrow> \<forall>v \<in> set (resize arr n). sorted_keys v"
  by (auto simp: resize_def dest: in_set_takeD)

lemma sorted_keys_update:
  "\<forall>v \<in> set arr. sorted_keys v \<Longrightarrow> sorted_keys x \<Longrightarrow> \<forall>v \<in> set (arr[i := x]). sorted_keys v"
  by (auto dest: set_update_subset_insert [THEN subsetD])

lemma sorted_keys_set_path_walk:
  "sorted_keys current \<Longrightarrow> sorted_keys val \<Longrightarrow> sorted_keys (fst (set_path_walk parts val current))"
proof (induction parts val current rule: set_path_walk.induct)
  case (1 val current)
  then show ?case by simp
next
  case (2 key index rest val current)
  show ?case
  proof (cases "index = - 1")
    case True
    show ?thesis
    proof (cases "if is_null current then JObject [] else current")
      case (JObject obj)
      with "2.prems" have so: "sorted_keys (JObject obj)"
        by (auto simp: is_null_def split: if_splits)
      show ?thesis
      proof (cases "rest = []")
        case r: True
        with True JObject sorted_keys_assign [OF so "2.prems"(2), of key] show ?thesis
          by simp
      next
        case r: False
        obtain child obj' where ms: "map_subscript JNull obj key = (child, obj')"
          by (cases "map_subscript JNull obj key")
        obtain child' err where w: "set_path_walk rest val child = (child', err)"
          by (cases "set_path_walk rest val child")
        from sorted_keys_subscript [OF so ms] have c: "sorted_keys child" "sorted_keys (JObject obj')"
          by simp_all
        from "2.IH"(1) [OF True JObject r ms [symmetric] c(1) "2.prems"(2)] w
        have "sorted_keys child'" by simp
        with True JObject r ms w sorted_keys_assign [OF c(2), of child' key] show ?thesis
          by simp
      qed
    qed (use True "2.prems" in \<open>auto simp: is_null_def split: if_splits\<close>)
  next
    case False
    show ?thesis
    proof (cases "if is_null current then JArray [] else current")
      case (JArray arr0)
      with "2.prems" have sa: "\<forall>v \<in> set arr0. sorted_keys v"
        by (auto simp: is_null_def split: if_splits)
      define arr where "arr = (if length arr0 \<le> nat index then resize arr0 (nat index + 1) else arr0)"
      have sarr: "\<forall>v \<in> set arr. sorted_keys v"
        using sa sorted_keys_resize [of arr0 "nat index + 1"] by (simp add: arr_def)
      have lt: "nat index < length arr"
        by (auto simp: arr_def resize_def)
      show ?thesis
      proof (cases "rest = []")
        case r: True
        with False JArray sorted_keys_update [OF sarr "2.prems"(2), of "nat index"] show ?thesis
          by (simp add: arr_def Let_def)
      next
        case r: False
        obtain child' err where w: "set_path_walk rest val (arr ! nat index) = (child', err)"
          by (cases "set_path_walk rest val (arr ! nat index)")
        from sarr lt have "sorted_keys (arr ! nat index)" by simp
        from "2.IH"(2) [OF False JArray arr_def r this "2.prems"(2)] w
        have "sorted_keys child'" by simp
        with False JArray r w sorted_keys_update [OF sarr this, of "nat index"] show ?thesis
          by (simp add: arr_def [symmetric] Let_def)
      qed
    qed (use False "2.prems" in \<open>auto simp: is_null_def split: if_splits\<close>)
  qed
qed

lemma sorted_keys_set_path:
  "sorted_keys this \<Longrightarrow> sorted_keys val \<Longrightarrow> sorted_keys (fst (set_path this path val))"
  by (auto simp: set_path_def sorted_keys_set_path_walk split: sum.splits)

lemma sorted_keys_apply:
  assumes "sorted_keys this" and "sorted_keys (payload m)"
  shows "sorted_keys (apply_mutation m this)"
proof (cases m)
  case (Erase_key key)
  with assms map_erase_subset [of _ key] show ?thesis
    by (cases this) (auto simp: map_erase_sorted)
next
  case (Erase_index index)
  with assms show ?thesis
    by (cases this) (auto dest: in_set_takeD in_set_dropD)
next
  case (Merge other)
  show ?thesis
  proof (cases this)
    case (JObject obj)
    show ?thesis
    proof (cases other)
      case o: (JObject other_obj)
      with assms Merge JObject
      have "sorted_keys (JObject (foldl (\<lambda>obj (k, v). map_assign obj k v) obj other_obj))"
        by (intro sorted_keys_assign_all) auto
      with Merge JObject o show ?thesis by simp
    qed (use assms Merge JObject in auto)
  qed (use assms Merge in auto)
next
  case Clear
  then show ?thesis by (cases this) auto
next
  case (Push_back item)
  with assms show ?thesis
    by (cases this) (auto simp: is_null_def)
next
  case (Push_front item)
  with assms show ?thesis
    by (cases this) (auto simp: is_null_def)
next
  case Pop_back
  with assms show ?thesis
    by (cases this) (auto dest: in_set_butlastD)
next
  case (Insert index item)
  with assms show ?thesis
    by (cases this) (auto dest: in_set_takeD in_set_dropD)
next
  case (Set_path path val)
  with assms show ?thesis
    by (simp add: sorted_keys_set_path)
qed (use assms in auto)

lemma sorted_keys_mutate_at:
  "sorted_keys this \<Longrightarrow> sorted_keys (payload m) \<Longrightarrow> sorted_keys (mutate_at steps m this)"
proof (induction steps m this rule: mutate_at.induct)
  case (1 m this)
  then show ?case by (simp add: sorted_keys_apply)
next
  case (2 key steps m this)
  show ?case
  proof (cases "if is_null this then JObject [] else this")
    case (JObject obj)
    with "2.prems" have so: "sorted_keys (JObject obj)"
      by (auto simp: is_null_def split: if_splits)
    obtain child obj' where ms: "map_subscript JNull obj key = (child, obj')"
      by (cases "map_subscript JNull obj key")
    from sorted_keys_subscript [OF so ms] have c: "sorted_keys child" "sorted_keys (JObject obj')"
      by simp_all
    from "2.IH" [OF JObject ms [symmetric] c(1) "2.prems"(2)]
    have "sorted_keys (mutate_at steps m child)" .
    with JObject ms sorted_keys_assign [OF c(2) this, of key] show ?thesis
      by simp
  qed (use "2.prems" in \<open>auto simp: is_null_def split: if_splits\<close>)
next
  case (3 idx steps m this)
  show ?case
  proof (cases "if is_null this then JArray [] else this")
    case (JArray arr0)
    with "3.prems" have sa: "\<forall>v \<in> set arr0. sorted_keys v"
      by (auto simp: is_null_def split: if_splits)
    define arr where "arr = (if idx \<ge> length arr0 then resize arr0 (idx + 1) else arr0)"
    have sarr: "\<forall>v \<in> set arr. sorted_keys v"
      using sa sorted_keys_resize [of arr0 "idx + 1"] by (simp add: arr_def)
    have lt: "idx < length arr"
      by (auto simp: arr_def resize_def)
    with sarr have "sorted_keys (arr ! idx)" by simp
    from "3.IH" [OF JArray arr_def this "3.prems"(2)]
    have "sorted_keys (mutate_at steps m (arr ! idx))" .
    with JArray sorted_keys_update [OF sarr this, of idx] show ?thesis
      by (simp add: arr_def [symmetric] Let_def)
  qed (use "3.prems" in \<open>auto simp: is_null_def split: if_splits\<close>)
qed

text \<open>
  The serializers write the entries in the order of the map, and a map filled with distinct
  keys, in whatever order, holds them sorted.
\<close>

lemma dump_members_concat:
  "dump_members pretty i z p first obj
     = drop (if first then 1 else 0) (concat (map (member_text pretty i z p) obj))"
proof (induction obj arbitrary: first)
  case Nil
  then show ?case by simp
next
  case (Cons kv obj)
  obtain k v where kv: "kv = (k, v)" by (cases kv)
  show ?case
    using Cons.IH [of False] by (simp add: kv member_text_def)
qed

lemma dump_attributes_concat: "dump_attributes attrs = concat (map attribute_text attrs)"
  by (induction attrs rule: dump_attributes.induct) (simp_all add: attribute_text_def)

lemma assign_all_set:
  assumes "distinct (map fst kvs)" and "fst ` set kvs \<inter> fst ` set m = {}"
    and "sorted_wrt (<) (map fst m)"
  shows "set (foldl (\<lambda>obj (k, v). map_assign obj k v) m kvs) = set m \<union> set kvs
    \<and> sorted_wrt (<) (map fst (foldl (\<lambda>obj (k, v). map_assign obj k v) m kvs))"
  using assms
proof (induction kvs arbitrary: m)
  case Nil
  then show ?case by simp
next
  case (Cons kv kvs)
  obtain k v where kv: "kv = (k, v)" by (cases kv)
  from Cons.prems have nk: "k \<notin> fst ` set m" by (auto simp: kv)
  have sub: "set (map_assign m k v) \<subseteq> insert (k, v) (set m)"
    by (rule map_assign_values)
  have keys: "fst ` set (map_assign m k v) = insert k (fst ` set m)"
    using map_assign_keys [of m k v] by simp
  have "set (map_assign m k v) = insert (k, v) (set m)"
  proof
    show "insert (k, v) (set m) \<subseteq> set (map_assign m k v)"
    proof
      fix x assume x: "x \<in> insert (k, v) (set m)"
      then have "fst x \<in> fst ` set (map_assign m k v)"
        unfolding keys by auto
      then obtain y where y: "y \<in> set (map_assign m k v)" "fst y = fst x"
        by auto
      from y(1) sub have y': "y = (k, v) \<or> y \<in> set m" by auto
      from Cons.prems(3) have dm: "distinct (map fst m)"
        by (simp add: strict_sorted_iff)
      show "x \<in> set (map_assign m k v)"
      proof (cases "x = (k, v)")
        case True
        with y y' nk have "y = (k, v)"
          by (metis fst_conv image_eqI)
        with True y(1) show ?thesis by simp
      next
        case False
        with x have xm: "x \<in> set m" by simp
        with nk have "fst x \<noteq> k" by auto
        with y y' have "y \<in> set m" by auto
        with xm y(2) dm have "y = x"
          by (metis distinct_map inj_onD)
        with y(1) show ?thesis by simp
      qed
    qed
  qed (rule sub)
  moreover have "sorted_wrt (<) (map fst (map_assign m k v))"
    using Cons.prems(3) by (rule map_assign_sorted)
  moreover have "distinct (map fst kvs)" "fst ` set kvs \<inter> fst ` set (map_assign m k v) = {}"
    using Cons.prems(1,2) unfolding keys by (auto simp: kv)
  ultimately show ?case
    using Cons.IH [of "map_assign m k v"] by (auto simp: kv)
qed

lemma assign_all_sort:
  assumes "distinct (map fst kvs)"
  shows "foldl (\<lambda>obj (k, v). map_assign obj k v) [] kvs = sort_key fst kvs"
proof -
  let ?f = "foldl (\<lambda>obj (k, v). map_assign obj k v) [] kvs"
  from assign_all_set [OF assms, of "[]"]
  have s: "set ?f = set kvs" and so: "sorted_wrt (<) (map fst ?f)"
    by simp_all
  from assms have inj: "inj_on fst (set kvs)"
    by (simp add: distinct_map)
  from assms have "distinct kvs"
    by (simp add: distinct_map)
  then have "distinct (map fst (sort_key fst kvs))"
    using inj by (simp add: distinct_map)
  moreover have "sorted (map fst (sort_key fst kvs))"
    by (rule sorted_sort_key)
  moreover from so have "sorted (map fst ?f)" "distinct (map fst ?f)"
    by (simp_all add: strict_sorted_iff)
  ultimately show ?thesis
    using inj s by (intro map_sorted_distinct_set_unique [of fst]) simp_all
qed

lemma sorted_attributes_apply:
  assumes "sorted_attributes n" and "sorted_attributes (node_payload m)"
  shows "sorted_attributes (apply_node_mutation m n)"
  using assms
  by (cases n; cases m)
     (auto simp: set_attribute_def remove_attribute_def set_text_def add_child_def clear_def
        map_assign_sorted map_erase_sorted)

lemma sorted_attributes_subscript:
  assumes "sorted_attributes n" and "operator_subscript n k = (n', i)"
  shows "sorted_attributes n' \<and> i < length (child_nodes n')"
proof (cases "find_child (child_nodes n) k")
  case None
  with assms show ?thesis
    by (cases n) (auto simp: operator_subscript_def add_child_def new_node_def)
next
  case (Some j)
  with assms find_child_Some [OF Some] show ?thesis
    by (auto simp: operator_subscript_def)
qed

lemma sorted_attributes_mutate_at:
  "sorted_attributes n \<Longrightarrow> sorted_attributes (node_payload m)
     \<Longrightarrow> sorted_attributes (mutate_node_at names m n)"
proof (induction names m n rule: mutate_node_at.induct)
  case (1 m n)
  then show ?case by (simp add: sorted_attributes_apply)
next
  case (2 child_name names m n)
  obtain n' i where os: "operator_subscript n child_name = (n', i)"
    by (cases "operator_subscript n child_name")
  from sorted_attributes_subscript [OF "2.prems"(1) os]
  have sn: "sorted_attributes n'" and i: "i < length (child_nodes n')"
    by simp_all
  from sn have all: "sorted_wrt (<) (map fst (attributes n'))" "\<forall>c \<in> set (child_nodes n'). sorted_attributes c"
    by (cases n'; simp)+
  with i have "sorted_attributes (child_nodes n' ! i)" by simp
  from "2.IH" [OF os [symmetric] this "2.prems"(2)]
  have "sorted_attributes (mutate_node_at names m (child_nodes n' ! i))" .
  with all os show ?case
    by (auto dest: set_update_subset_insert [THEN subsetD])
qed

text \<open>The parsers fill their maps with the same assignment.\<close>

lemma parse_leaf_sorted:
  "parse_null s i = Inr (v, i') \<Longrightarrow> sorted_keys v"
  "parse_bool s i = Inr (v, i') \<Longrightarrow> sorted_keys v"
  "parse_string s i = Inr (v, i') \<Longrightarrow> sorted_keys v"
  "parse_number s i = Inr (v, i') \<Longrightarrow> sorted_keys v"
proof -
  show "parse_null s i = Inr (v, i') \<Longrightarrow> sorted_keys v"
    by (auto simp: parse_null_def split: if_splits)
  show "parse_bool s i = Inr (v, i') \<Longrightarrow> sorted_keys v"
    by (auto simp: parse_bool_def split: if_splits)
  show "parse_string s i = Inr (v, i') \<Longrightarrow> sorted_keys v"
    by (auto simp: parse_string_def split: if_splits sum.splits)
  show "parse_number s i = Inr (v, i') \<Longrightarrow> sorted_keys v"
  proof -
    assume a: "parse_number s i = Inr (v, i')"
    have "\<exists>num. v = JNumber num"
    proof (rule ccontr)
      assume n: "\<not> (\<exists>num. v = JNumber num)"
      have "\<And>x y. (case stod x of Inl e \<Rightarrow> Inl (JSONParseError ''Invalid number format'')
            | Inr num \<Rightarrow> Inr (JNumber num, y)) \<noteq> Inr (v, i')"
        using n by (auto split: sum.splits)
      with a show False
        unfolding parse_number_def Let_def by (auto split: if_splits)
    qed
    then show ?thesis by auto
  qed
qed

lemma parse_sorted:
  "parse_value f s i = Some (Inr (v, i')) \<Longrightarrow> sorted_keys v"
  "parse_array f s i = Some (Inr (v, i')) \<Longrightarrow> sorted_keys v"
  "parse_array_loop f s i arr = Some (Inr (v, i')) \<Longrightarrow> \<forall>x \<in> set arr. sorted_keys x \<Longrightarrow> sorted_keys v"
  "parse_object f s i = Some (Inr (v, i')) \<Longrightarrow> sorted_keys v"
  "parse_object_loop f s i obj = Some (Inr (v, i')) \<Longrightarrow> sorted_keys (JObject obj) \<Longrightarrow> sorted_keys v"
proof (induction f s i and f s i and f s i arr and f s i and f s i obj
    arbitrary: v i' and v i' and v i' and v i' and v i'
    rule: parse_value_parse_array_parse_array_loop_parse_object_parse_object_loop.induct)
  case (1 s idx0)
  then show ?case by (simp add: parse_value.simps)
next
  case (2 fuel s idx0)
  show ?case
  proof (cases "length s \<le> skip_ws s idx0")
    case True
    with "2.prems" show ?thesis
      by (simp add: parse_value.simps Let_def)
  next
    case False
    note ih = "2.IH" [OF refl False refl]
    consider (arr) "s ! skip_ws s idx0 = CHR ''[''" | (obj) "s ! skip_ws s idx0 = CHR ''{''"
      | (other) "s ! skip_ws s idx0 \<noteq> CHR ''[''" "s ! skip_ws s idx0 \<noteq> CHR ''{''"
      by blast
    then show ?thesis
    proof cases
      case arr
      with False "2.prems" have "parse_array fuel s (skip_ws s idx0) = Some (Inr (v, i'))"
        by (simp add: parse_value.simps Let_def)
      with ih(1) arr show ?thesis by fastforce
    next
      case obj
      with False "2.prems" have "parse_object fuel s (skip_ws s idx0) = Some (Inr (v, i'))"
        by (simp add: parse_value.simps Let_def)
      with ih(2) obj show ?thesis by fastforce
    next
      case other
      with False "2.prems"
      have "parse_null s (skip_ws s idx0) = Inr (v, i') \<or> parse_bool s (skip_ws s idx0) = Inr (v, i')
          \<or> parse_string s (skip_ws s idx0) = Inr (v, i') \<or> parse_number s (skip_ws s idx0) = Inr (v, i')"
        by (simp add: parse_value.simps Let_def split: if_splits)
      then show ?thesis
        by (auto dest: parse_leaf_sorted)
    qed
  qed
next
  case (3 fuel s idx0)
  have br: "char_at s idx0 = CHR ''[''"
    using "3.prems" by (auto simp: parse_array.simps char_at_def split: if_splits)
  define idx where "idx = skip_ws s (idx0 + 1)"
  show ?case
  proof (cases "idx < length s \<and> s ! idx = CHR '']''")
    case True
    with "3.prems" br show ?thesis
      by (auto simp: parse_array.simps Let_def idx_def)
  next
    case False
    with "3.prems" br have "parse_array_loop fuel s idx [] = Some (Inr (v, i'))"
      by (auto simp: parse_array.simps Let_def idx_def)
    from "3.IH" [OF _ idx_def False this] br show ?thesis by simp
  qed
next
  case (4 s idx arr)
  then show ?case by (simp add: parse_array_loop.simps)
next
  case (5 fuel s idx arr)
  from "5.prems" obtain a where a: "parse_value fuel s idx = Some a"
    by (auto simp: parse_array_loop.simps split: option.splits)
  show ?case
  proof (cases a)
    case (Inl e)
    with a "5.prems" show ?thesis
      by (auto simp: parse_array_loop.simps)
  next
    case (Inr p)
    obtain el idx1 where p: "p = (el, idx1)" by (cases p)
    from "5.IH"(1) a Inr p have el: "sorted_keys el" by simp
    with "5.prems"(2) have all: "\<forall>x \<in> set (arr @ [el]). sorted_keys x" by simp
    define idx2 where "idx2 = skip_ws s idx1"
    note ih = "5.IH"(2) [OF a Inr p [symmetric] refl idx2_def, OF _ _ _ all]
    from a Inr p "5.prems"(1) ih all show ?thesis
      by (auto simp: parse_array_loop.simps Let_def idx2_def split: if_splits)
  qed
next
  case (6 fuel s idx0)
  have br: "char_at s idx0 = CHR ''{''"
    using "6.prems" by (auto simp: parse_object.simps char_at_def split: if_splits)
  define idx where "idx = skip_ws s (idx0 + 1)"
  show ?case
  proof (cases "idx < length s \<and> s ! idx = CHR ''}''")
    case True
    with "6.prems" br show ?thesis
      by (auto simp: parse_object.simps Let_def idx_def)
  next
    case False
    with "6.prems" br have "parse_object_loop fuel s idx [] = Some (Inr (v, i'))"
      by (auto simp: parse_object.simps Let_def idx_def)
    from "6.IH" [OF _ idx_def False this] br show ?thesis by simp
  qed
next
  case (7 s idx obj)
  then show ?case by (simp add: parse_object_loop.simps)
next
  case (8 fuel s idx0 obj)
  define idx where "idx = skip_ws s idx0"
  from "8.prems"(1) have nokey: "\<not> (length s \<le> idx \<or> s ! idx \<noteq> CHR 0x22)"
    by (auto simp: parse_object_loop.simps Let_def idx_def split: if_splits)
  from "8.prems"(1) nokey obtain p where Inr: "parse_string s idx = Inr p"
    by (auto simp: parse_object_loop.simps Let_def idx_def split: sum.splits)
  obtain key idx1 where p: "p = (key, idx1)" by (cases p)
  define idx2 where "idx2 = skip_ws s idx1"
  from "8.prems"(1) nokey Inr p have colon: "\<not> (length s \<le> idx2 \<or> s ! idx2 \<noteq> CHR '':'')"
    by (auto simp: parse_object_loop.simps Let_def idx_def idx2_def split: if_splits)
  from "8.prems"(1) nokey Inr p colon obtain q where a: "parse_value fuel s (idx2 + 1) = Some (Inr q)"
    by (auto simp: parse_object_loop.simps Let_def idx_def idx2_def split: option.splits sum.splits)
  obtain val idx3 where q: "q = (val, idx3)" by (cases q)
  from "8.IH"(1) [OF idx_def nokey Inr p [symmetric] idx2_def colon] a q
  have sv: "sorted_keys val" by simp
  from "8.prems"(1) nokey Inr p colon a q obtain kk where JString: "key = JString kk"
    by (auto simp: parse_object_loop.simps Let_def idx_def idx2_def split: JSON.splits)
  have so: "sorted_keys (JObject (map_assign obj kk val))"
    using "8.prems"(2) sv by (rule sorted_keys_assign)
  define idx4 where "idx4 = skip_ws s idx3"
  note ih = "8.IH"(2) [OF idx_def nokey Inr p [symmetric] idx2_def colon a refl q [symmetric] JString refl idx4_def,
      OF _ _ _ so]
  from nokey Inr p colon a q JString "8.prems"(1) ih so show ?case
    by (auto simp: parse_object_loop.simps Let_def idx_def idx2_def
        idx4_def split: if_splits)
qed

lemma parse_sorted_keys: "parse s = Some (Inr v) \<Longrightarrow> sorted_keys v"
  by (auto simp: parse_def Let_def dest: parse_sorted(1) split: option.splits sum.splits if_splits)

lemma parse_attributes_sorted:
  "parse_attributes s i attrs = Inr (attrs', i') \<Longrightarrow> sorted_wrt (<) (map fst attrs)
     \<Longrightarrow> sorted_wrt (<) (map fst attrs')"
proof (induction s i attrs rule: parse_attributes.induct)
  case (1 s idx attrs)
  show ?case
  proof (cases "idx < length s \<and> s ! idx \<noteq> CHR ''>'' \<and> s ! idx \<noteq> CHR ''/''")
    case False
    with "1.prems" show ?thesis
      by (subst (asm) parse_attributes.simps) auto
  next
    case True
    show ?thesis
    proof (cases "parse_attribute s idx")
      case (Inl e)
      with True "1.prems" show ?thesis
        by (subst (asm) parse_attributes.simps) simp
    next
      case (Inr p)
      obtain key val idx1 where p: "p = (key, val, idx1)" by (cases p)
      have "parse_attributes s idx1 (map_assign attrs key val) = Inr (attrs', i')"
        using True Inr p "1.prems"(1) by (subst (asm) parse_attributes.simps) simp
      from "1.IH" [OF True Inr p [symmetric] refl this] "1.prems"(2) show ?thesis
        by (simp add: map_assign_sorted)
    qed
  qed
qed

lemma open_tag_sorted: "open_tag s i = Inr (node, idx, sc) \<Longrightarrow> sorted_attributes node"
proof -
  assume a: "open_tag s i = Inr (node, idx, sc)"
  then obtain nm attrs j where pa: "parse_attributes s j [] = Inr (attrs, idx - (if sc then 2 else 1))"
    and n: "node = Node nm [] attrs []"
    by (auto simp: open_tag_def Let_def new_node_def split: if_splits sum.splits)
  from parse_attributes_sorted [OF pa] n show ?thesis by simp
qed

lemma add_text_sorted: "sorted_attributes n \<Longrightarrow> sorted_attributes (add_text n t)"
  by (cases n) (simp add: add_text_def)

lemma add_child_sorted:
  "sorted_attributes n \<Longrightarrow> sorted_attributes c \<Longrightarrow> sorted_attributes (add_child n c)"
  by (cases n) (simp add: add_child_def)

lemma close_node_sorted:
  "close_node s i cs n = Inr (n', i') \<Longrightarrow> sorted_attributes n \<Longrightarrow> sorted_attributes n'"
  by (auto simp: close_node_def Let_def add_text_sorted split: if_splits)

lemma xml_sorted:
  "parse_node f s i = Some (Inr (n, i')) \<Longrightarrow> sorted_attributes n"
  "parse_content f s i cs n0 = Some (Inr (n1, i1, cs1)) \<Longrightarrow> sorted_attributes n0
     \<Longrightarrow> sorted_attributes n1"
proof (induction f s i and f s i cs n0 arbitrary: n i' and n1 i1 cs1
    rule: parse_node_parse_content.induct)
  case (1 s idx0)
  then show ?case by (simp add: parse_node.simps)
next
  case (2 fuel s idx0)
  from "2.prems" obtain node idx sc where ot: "open_tag s idx0 = Inr (node, idx, sc)"
    by (cases "open_tag s idx0") (auto simp: parse_node.simps)
  note so = open_tag_sorted [OF ot]
  show ?case
  proof (cases sc)
    case True
    with ot "2.prems" so show ?thesis
      by (simp add: parse_node.simps)
  next
    case False
    from "2.prems" ot False obtain n1 i1 cs1 where
      pc: "parse_content fuel s idx idx node = Some (Inr (n1, i1, cs1))"
      and cl: "close_node s i1 cs1 n1 = Inr (n, i')"
      by (auto simp: parse_node.simps split: option.splits sum.splits)
    from "2.IH" [OF ot refl refl False pc so] have "sorted_attributes n1" .
    with cl show ?thesis by (rule close_node_sorted)
  qed
next
  case (3 s idx0 content_start node)
  then show ?case by (simp add: parse_content.simps)
next
  case (4 fuel s idx0 content_start node)
  define idx where "idx = skip_ws s idx0"
  show ?case
  proof (cases "idx0 < length s")
    case False
    with "4.prems" show ?thesis
      by (simp add: parse_content_end)
  next
    case lt: True
    show ?thesis
    proof (cases "idx + 1 < length s \<and> s ! idx = CHR ''<'' \<and> s ! (idx + 1) = CHR ''/''")
      case True
      from "4.prems" show ?thesis
        unfolding parse_content_close [OF lt idx_def True] by simp
    next
      case nc: False
      show ?thesis
      proof (cases "idx < length s \<and> s ! idx = CHR ''<''")
        case False
        note e = parse_content_skip [OF lt idx_def nc False]
        from "4.prems"(1) have "parse_content fuel s (idx + 1) content_start node = Some (Inr (n1, i1, cs1))"
          unfolding e .
        from "4.IH"(3) [OF lt idx_def nc False this "4.prems"(2)] show ?thesis .
      next
        case ch: True
        note e = parse_content_child [OF lt idx_def nc ch]
        define node' where "node' = (if idx > content_start
          then add_text node (decode_text (substr s content_start (idx - content_start))) else node)"
        have sn: "sorted_attributes node'"
          using "4.prems"(2) by (simp add: node'_def add_text_sorted)
        from "4.prems"(1) obtain child idx' where a: "parse_node fuel s idx = Some (Inr (child, idx'))"
          and r: "parse_content fuel s idx' idx' (add_child node' child) = Some (Inr (n1, i1, cs1))"
          unfolding e node'_def by (auto split: option.splits sum.splits)
        from "4.IH"(1) [OF lt idx_def nc ch node'_def a] have "sorted_attributes child" .
        with sn have "sorted_attributes (add_child node' child)" by (rule add_child_sorted)
        from "4.IH"(2) [OF lt idx_def nc ch node'_def a refl refl r this] show ?thesis .
      qed
    qed
  qed
qed

lemma xml_parse_sorted: "xml_parse s = Some (Inr n) \<Longrightarrow> sorted_attributes n"
  by (auto simp: xml_parse_def Let_def dest: xml_sorted(1) split: option.splits sum.splits if_splits)

lemma set_attribute_all:
  "attributes (foldl (\<lambda>n (k, v). set_attribute n k v) n kvs)
     = foldl (\<lambda>m (k, v). map_assign m k v) (attributes n) kvs"
  by (induction kvs arbitrary: n) (auto simp: set_attribute_def)

lemma sorted_keys_mutations:
  assumes "sorted_keys v" and "\<forall>(steps, m) \<in> set ms. sorted_keys (payload m)"
  shows "sorted_keys (foldl (\<lambda>v (steps, m). mutate_at steps m v) v ms)"
  using assms by (induction ms arbitrary: v) (auto simp: sorted_keys_mutate_at)

lemma sorted_attributes_mutations:
  assumes "sorted_attributes n" and "\<forall>(names, m) \<in> set ms. sorted_attributes (node_payload m)"
  shows "sorted_attributes (foldl (\<lambda>n (names, m). mutate_node_at names m n) n ms)"
  using assms by (induction ms arbitrary: n) (auto simp: sorted_attributes_mutate_at)

lemma dump_object_members:
  "dump pretty i z p (JObject obj) =
     ''{'' @ drop 1 (concat (map (member_text pretty i z p) obj))
     @ (if pretty \<and> obj \<noteq> [] then CHR 0x0A # replicate i CHR '' '' else []) @ ''}''"
  by (simp add: dump_members_concat)

lemma xml_dump_attributes:
  "\<exists>rest. xml_dump pretty l z n =
     indent_text pretty l z @ ''<'' @ name n @ concat (map attribute_text (attributes n)) @ rest"
  by (cases n) (simp add: xml_dump_def indent_text_def Let_def dump_attributes_concat)

section \<open>The claims\<close>

text \<open>
  C2. Parsing the string literal \<^verbatim>\<open>"\uD83D\uDE00"\<close> gives the String made of the four bytes
  \<open>F0 9F 98 80\<close>, the UTF-8 encoding of the code point U+1F600 that the surrogate pair
  combines to. Parsing a literal that contains a lone surrogate raises a parse error: for every
  ASCII text in front of the escape, every spelling \<open>h\<close> of the four hexadecimal digits and
  every text \<open>rest\<close> after them, a code point from \<open>0xD800\<close> to \<open>0xDBFF\<close> that no low
  surrogate escape follows raises, and so does a code point from \<open>0xDC00\<close> to \<open>0xDFFF\<close>
  that no high surrogate precedes; such are \<^verbatim>\<open>"\uD800"\<close> and \<^verbatim>\<open>"\uDC00"\<close>. A code point outside
  the two ranges is read as itself.
\<close>

theorem C2_surrogate_pairs:
  "parse ([CHR 0x22, CHR 0x5C] @ ''uD83D'' @ [CHR 0x5C] @ ''uDE00'' @ [CHR 0x22])
     = Some (Inr (JString [CHR 0xF0, CHR 0x9F, CHR 0x98, CHR 0x80]))
   \<and> unicode_escape ([CHR 0x22, CHR 0x5C] @ ''uD83D'' @ [CHR 0x5C] @ ''uDE00'' @ [CHR 0x22]) 3
     = Inr (0x1F600, 13)
   \<and> encode_utf8 [] 0x1F600 = [CHR 0xF0, CHR 0x9F, CHR 0x98, CHR 0x80]
   \<and> parse ([CHR 0x22, CHR 0x5C] @ ''uD800'' @ [CHR 0x22])
     = Some (Inl (JSONParseError ''Invalid unicode escape sequence''))
   \<and> parse ([CHR 0x22, CHR 0x5C] @ ''uDC00'' @ [CHR 0x22])
     = Some (Inl (JSONParseError ''Invalid unicode escape sequence''))
   \<and> ((\<forall>c \<in> set str. (of_char c :: nat) < 128) \<and> length h = 4 \<and> stoi 16 h = Inr cp \<longrightarrow>
        (0xD800 \<le> cp \<and> cp \<le> 0xDBFF \<and> low_surrogate rest = None \<longrightarrow>
           parse (CHR 0x22 # concat (map dump_char str) @ [CHR 0x5C, CHR ''u''] @ h @ rest)
             = Some (Inl (JSONParseError ''Invalid unicode escape sequence'')))
        \<and> (0xDC00 \<le> cp \<and> cp \<le> 0xDFFF \<longrightarrow>
           parse (CHR 0x22 # concat (map dump_char str) @ [CHR 0x5C, CHR ''u''] @ h @ rest)
             = Some (Inl (JSONParseError ''Invalid unicode escape sequence'')))
        \<and> (cp < 0xD800 \<or> 0xDFFF < cp \<longrightarrow>
           parse (CHR 0x22 # concat (map dump_char str) @ [CHR 0x5C, CHR ''u''] @ h @ [CHR 0x22])
             = Some (Inr (JString (encode_utf8 str cp)))))"
proof -
  have pair: "parse_value (Suc 0) ([CHR 0x22, CHR 0x5C] @ ''uD83D'' @ [CHR 0x5C] @ ''uDE00'' @ [CHR 0x22]) 0
      = Some (Inr (JString [CHR 0xF0, CHR 0x9F, CHR 0x98, CHR 0x80], 14))"
    by (simp add: parse_eval char_eval stoi_eval)
  have high: "parse_value (Suc 0) ([CHR 0x22, CHR 0x5C] @ ''uD800'' @ [CHR 0x22]) 0
      = Some (Inl (JSONParseError ''Invalid unicode escape sequence''))"
    by (simp add: parse_eval char_eval stoi_eval)
  have low: "parse_value (Suc 0) ([CHR 0x22, CHR 0x5C] @ ''uDC00'' @ [CHR 0x22]) 0
      = Some (Inl (JSONParseError ''Invalid unicode escape sequence''))"
    by (simp add: parse_eval char_eval stoi_eval)
  have esc: "unicode_escape ([CHR 0x22, CHR 0x5C] @ ''uD83D'' @ [CHR 0x5C] @ ''uDE00'' @ [CHR 0x22]) 3
      = Inr (0x1F600, 13)"
    by (simp add: unicode_escape_def char_eval stoi_eval)
  have enc: "encode_utf8 [] 0x1F600 = [CHR 0xF0, CHR 0x9F, CHR 0x98, CHR 0x80]"
    by (simp add: encode_utf8_def char_of_def)
  have closed: "parse ([CHR 0x22, CHR 0x5C] @ ''uD83D'' @ [CHR 0x5C] @ ''uDE00'' @ [CHR 0x22])
     = Some (Inr (JString [CHR 0xF0, CHR 0x9F, CHR 0x98, CHR 0x80]))
   \<and> parse ([CHR 0x22, CHR 0x5C] @ ''uD800'' @ [CHR 0x22])
     = Some (Inl (JSONParseError ''Invalid unicode escape sequence''))
   \<and> parse ([CHR 0x22, CHR 0x5C] @ ''uDC00'' @ [CHR 0x22])
     = Some (Inl (JSONParseError ''Invalid unicode escape sequence''))"
    using parse_eq [OF pair] parse_eq [OF high] parse_eq [OF low]
    by (simp add: char_eval)
  have general: "parse (CHR 0x22 # concat (map dump_char str) @ [CHR 0x5C, CHR ''u''] @ h @ rest)
      = Some (Inl (JSONParseError ''Invalid unicode escape sequence''))"
    if "\<forall>c \<in> set str. (of_char c :: nat) < 128" "length h = 4" "stoi 16 h = Inr cp"
      and lone: "(0xD800 \<le> cp \<and> cp \<le> 0xDBFF \<and> low_surrogate rest = None)
        \<or> (0xDC00 \<le> cp \<and> cp \<le> 0xDFFF)"
  proof -
    have "parse (CHR 0x22 # concat (map dump_char str) @ ([CHR 0x5C, CHR ''u''] @ h) @ rest)
        = Some (Inl (JSONParseError ''Invalid unicode escape sequence''))"
    proof (rule parse_escaped_then [OF that(1)])
      show "parse_string_body ((CHR 0x22 # concat (map dump_char str)) @ ([CHR 0x5C, CHR ''u''] @ h) @ rest)
          (length (CHR 0x22 # concat (map dump_char str))) str
        = Inl (JSONParseError ''Invalid unicode escape sequence'')"
        using parse_string_body_unicode [OF that(2,3), of "CHR 0x22 # concat (map dump_char str)" rest str]
          lone
        by auto
    qed simp
    then show ?thesis by simp
  qed
  from closed esc enc general parse_escaped_unicode [of str h cp] show ?thesis
    by blast
qed

text \<open>
  The ends of the two ranges, in both cases of the digits: \<^verbatim>\<open>\udBfF\<close> before a letter or before
  another high surrogate, and \<^verbatim>\<open>\uDFFF\<close>, raise; \<^verbatim>\<open>\uD7FF\<close> and \<^verbatim>\<open>\uE000\<close> are read.
\<close>

theorem C2_surrogate_pairs_witness:
  "stoi 16 ''dBfF'' = Inr 0xDBFF
   \<and> low_surrogate (''x'' @ [CHR 0x22]) = None
   \<and> parse ([CHR 0x22] @ ''ab'' @ [CHR 0x5C] @ ''udBfFx'' @ [CHR 0x22])
       = Some (Inl (JSONParseError ''Invalid unicode escape sequence''))
   \<and> low_surrogate ([CHR 0x5C] @ ''uD800'' @ [CHR 0x22]) = None
   \<and> parse ([CHR 0x22] @ ''ab'' @ [CHR 0x5C] @ ''udBfF'' @ [CHR 0x5C] @ ''uD800'' @ [CHR 0x22])
       = Some (Inl (JSONParseError ''Invalid unicode escape sequence''))
   \<and> stoi 16 ''DFFF'' = Inr 0xDFFF
   \<and> parse ([CHR 0x22] @ ''ab'' @ [CHR 0x5C] @ ''uDFFF'' @ [CHR 0x22])
       = Some (Inl (JSONParseError ''Invalid unicode escape sequence''))
   \<and> stoi 16 ''D7FF'' = Inr 0xD7FF
   \<and> parse ([CHR 0x22] @ ''ab'' @ [CHR 0x5C] @ ''uD7FF'' @ [CHR 0x22])
       = Some (Inr (JString (''ab'' @ [CHR 0xED, CHR 0x9F, CHR 0xBF])))
   \<and> stoi 16 ''E000'' = Inr 0xE000
   \<and> parse ([CHR 0x22] @ ''ab'' @ [CHR 0x5C] @ ''uE000'' @ [CHR 0x22])
       = Some (Inr (JString (''ab'' @ [CHR 0xEE, CHR 0x80, CHR 0x80])))"
proof -
  have s1: "stoi 16 ''dBfF'' = Inr 0xDBFF" "stoi 16 ''DFFF'' = Inr 0xDFFF"
    "stoi 16 ''D7FF'' = Inr 0xD7FF" "stoi 16 ''E000'' = Inr 0xE000"
    by (simp_all add: stoi_eval char_eval)
  have l1: "low_surrogate (''x'' @ [CHR 0x22]) = None"
    "low_surrogate ([CHR 0x5C] @ ''uD800'' @ [CHR 0x22]) = None"
    by (simp_all add: low_surrogate_def stoi_eval char_eval)
  have d: "concat (map dump_char ''ab'') = ''ab''"
    by (simp add: dump_char_def char_val_def)
  have e: "encode_utf8 ''ab'' 0xD7FF = ''ab'' @ [CHR 0xED, CHR 0x9F, CHR 0xBF]"
    "encode_utf8 ''ab'' 0xE000 = ''ab'' @ [CHR 0xEE, CHR 0x80, CHR 0x80]"
    by (simp_all add: encode_utf8_def char_of_def)
  from C2_surrogate_pairs [of "''ab''" "''dBfF''" "0xDBFF" "''x'' @ [CHR 0x22]"]
    C2_surrogate_pairs [of "''ab''" "''dBfF''" "0xDBFF" "[CHR 0x5C] @ ''uD800'' @ [CHR 0x22]"]
    C2_surrogate_pairs [of "''ab''" "''DFFF''" "0xDFFF" "[CHR 0x22]"]
    C2_surrogate_pairs [of "''ab''" "''D7FF''" "0xD7FF" "[]"]
    C2_surrogate_pairs [of "''ab''" "''E000''" "0xE000" "[]"]
  show ?thesis
    by (simp add: s1 l1 [simplified] e [simplified] d [simplified])
qed

text \<open>
  C3. The number grammar is strict: \<^verbatim>\<open>01\<close>, \<^verbatim>\<open>1.\<close>, \<^verbatim>\<open>.5\<close> and \<^verbatim>\<open>1e\<close> each raise a parse
  error, and \<^verbatim>\<open>-0\<close>, \<^verbatim>\<open>3.14\<close> and \<^verbatim>\<open>1e10\<close> each parse to a Number: zero, the double
  nearest to 3.14, and ten to the tenth.
\<close>

theorem C3_strict_numbers:
  "parse ''01'' = Some (Inl (JSONParseError ''Extra characters after JSON''))
   \<and> parse ''1.'' = Some (Inl (JSONParseError ''Invalid number: missing digits after decimal point''))
   \<and> parse ''.5'' = Some (Inl (JSONParseError ''Unexpected character: .''))
   \<and> parse ''1e'' = Some (Inl (JSONParseError ''Invalid number: missing digits in exponent''))
   \<and> parse ''-0'' = Some (Inr (JNumber (Double 0 0)))
   \<and> parse ''3.14'' = Some (Inr (JNumber (Double 7070651414971679 (- 51))))
   \<and> parse ''1e10'' = Some (Inr (JNumber (Double 9765625 10)))
   \<and> is_number (JNumber (Double 0 0))"
proof -
  have a: "parse_value (Suc 0) ''01'' 0 = Some (Inr (JNumber (Double 0 0), 1))"
    by (simp add: parse_eval char_eval stod_eval)
  have b: "parse_value (Suc 0) ''1.'' 0
      = Some (Inl (JSONParseError ''Invalid number: missing digits after decimal point''))"
    by (simp add: parse_eval char_eval)
  have c: "parse_value (Suc 0) ''.5'' 0 = Some (Inl (JSONParseError ''Unexpected character: .''))"
    by (simp add: parse_eval char_eval)
  have d: "parse_value (Suc 0) ''1e'' 0
      = Some (Inl (JSONParseError ''Invalid number: missing digits in exponent''))"
    by (simp add: parse_eval char_eval)
  have e: "parse_value (Suc 0) ''-0'' 0 = Some (Inr (JNumber (Double 0 0), 2))"
    by (simp add: parse_eval char_eval stod_eval)
  have f: "parse_value (Suc 0) ''3.14'' 0
      = Some (Inr (JNumber (Double 7070651414971679 (- 51)), 4))"
    by (simp add: parse_eval char_eval stod_eval)
  have g: "parse_value (Suc 0) ''1e10'' 0 = Some (Inr (JNumber (Double 9765625 10), 4))"
    by (simp add: parse_eval char_eval stod_eval)
  show ?thesis
    using parse_eq [OF a] parse_eq [OF b] parse_eq [OF c] parse_eq [OF d] parse_eq [OF e]
      parse_eq [OF f] parse_eq [OF g]
    by (simp add: char_eval is_number_def)
qed

text \<open>
  C4. Starting from Null, \<^verbatim>\<open>set_path("a.b[1]", x)\<close> raises nothing and leaves the Object
  whose key \<open>a\<close> holds an Object whose key \<open>b\<close> holds the Array of Null and \<open>x\<close>: an Array of
  length at least 2 with Null at index 0. Then \<^verbatim>\<open>at_path("a.b[1]")\<close> returns \<open>x\<close>.
\<close>

theorem C4_auto_vivification:
  "set_path JNull ''a.b[1]'' x
     = (JObject [(''a'', JObject [(''b'', JArray [JNull, x])])], None)
   \<and> at_path (fst (set_path JNull ''a.b[1]'' x)) ''a.b[1]'' = Inr x
   \<and> (\<exists>obj_a obj_b arr.
         fst (set_path JNull ''a.b[1]'' x) = JObject obj_a
         \<and> map_find obj_a ''a'' = Some (JObject obj_b)
         \<and> map_find obj_b ''b'' = Some (JArray arr)
         \<and> 2 \<le> length arr \<and> arr ! 0 = JNull)"
proof -
  have parts: "path_parts_from ''a.b[1]'' 0 [] = Inr [(''a'', - 1), (''b'', - 1), ([], 1)]"
    by (simp add: path_parts_from.simps char_eval stoi_eval Let_def)
  have set: "set_path JNull ''a.b[1]'' x
      = (JObject [(''a'', JObject [(''b'', JArray [JNull, x])])], None)"
    by (simp add: set_path_def parts is_null_def map_subscript_def resize_def)
  have at: "at_path (JObject [(''a'', JObject [(''b'', JArray [JNull, x])])]) ''a.b[1]'' = Inr x"
    by (simp add: path_eval char_eval stoi_eval)
  show ?thesis
    by (simp add: set at)
qed

text \<open>
  C5, as amended. \<open>at_path\<close> reads the path and walks the value in one pass. For a path that
  the first loop of \<^verbatim>\<open>set_path\<close> accepts (identifiers and bracketed indexes that fit an
  \<^verbatim>\<open>int\<close>) it never raises: it returns the value addressed, and that is Null as soon as a
  segment is absent, out of range or applied to the wrong variant. For a path that loop
  rejects, \<open>at_path\<close> raises the same error exactly when every segment in front of the
  malformed position resolves in the receiver, and returns Null when one of them is absent,
  out of range or applied to the wrong variant.
\<close>

theorem C5_at_path_errors:
  "case path_parts_from path 0 [] of
     Inr parts \<Rightarrow>
       at_path v path = Inr (read_parts parts v)
       \<and> (\<not> resolves parts v \<longrightarrow> at_path v path = Inr JNull)
   | Inl e \<Rightarrow>
       at_path v path = (if resolves (path_parts_pushed path 0) v then Inl e else Inr JNull)"
  using at_path_from_resolves [where path = path and i = 0 and acc = "[]" and cur = v]
    path_parts_from_pushed [where path = path and i = 0 and acc = "[]"]
    read_parts_unresolved [where ps = "path_parts_pushed path 0" and cur = v]
  by (auto simp: at_path_def split: sum.splits)

theorem C5_at_path_errors_witness:
  "path_parts_from ''a[1]'' 0 [] = Inr [(''a'', - 1), ([], 1)]
   \<and> at_path (JObject [(''a'', JArray [JNull, JBool True])]) ''a[1]'' = Inr (JBool True)
   \<and> path_parts_from ''a[7]'' 0 [] = Inr [(''a'', - 1), ([], 7)]
   \<and> \<not> resolves [(''a'', - 1), ([], 7)] (JObject [(''a'', JArray [JNull, JBool True])])
   \<and> at_path (JObject [(''a'', JArray [JNull, JBool True])]) ''a[7]'' = Inr JNull
   \<and> path_parts_from ''a[1'' 0 [] = Inl (JSONParseError ''Expected closing bracket'')
   \<and> path_parts_pushed ''a[1'' 0 = [(''a'', - 1)]
   \<and> resolves [(''a'', - 1)] (JObject [(''a'', JArray [JNull, JBool True])])
   \<and> at_path (JObject [(''a'', JArray [JNull, JBool True])]) ''a[1''
       = Inl (JSONParseError ''Expected closing bracket'')
   \<and> \<not> resolves [(''a'', - 1)] (JObject [(''b'', JNull)])
   \<and> at_path (JObject [(''b'', JNull)]) ''a[1'' = Inr JNull"
proof -
  let ?v = "JObject [(''a'', JArray [JNull, JBool True])]"
  let ?w = "JObject [(''b'', JNull)]"
  have p1: "path_parts_from ''a[1]'' 0 [] = Inr [(''a'', - 1), ([], 1)]"
    by (simp add: path_parts_from.simps char_eval stoi_eval Let_def)
  have p2: "path_parts_from ''a[7]'' 0 [] = Inr [(''a'', - 1), ([], 7)]"
    by (simp add: path_parts_from.simps char_eval stoi_eval Let_def)
  have p3: "path_parts_from ''a[1'' 0 [] = Inl (JSONParseError ''Expected closing bracket'')"
    by (simp add: path_parts_from.simps char_eval stoi_eval Let_def)
  have q3: "path_parts_pushed ''a[1'' 0 = [(''a'', - 1)]"
    by (simp add: path_parts_pushed.simps char_eval stoi_eval Let_def)
  from C5_at_path_errors [where path = "''a[1]''" and v = ?v]
    C5_at_path_errors [where path = "''a[7]''" and v = ?v]
    C5_at_path_errors [where path = "''a[1''" and v = ?v]
    C5_at_path_errors [where path = "''a[1''" and v = ?w]
  show ?thesis
    by (simp add: p1 p2 p3 q3)
qed

text \<open>
  C5, as the claim states it, fails: the path \<^verbatim>\<open>a[\<close> has an unterminated bracket, which the
  first loop of \<^verbatim>\<open>set_path\<close> rejects, and yet \<open>at_path\<close> on Null returns Null without an
  error, because the walk stops at the segment \<open>a\<close>.
\<close>

theorem C5_counterexample:
  "path_parts_from ''a['' 0 [] = Inl (JSONParseError ''Expected closing bracket'')
   \<and> at_path JNull ''a['' = Inr JNull"
  by (simp add: path_eval char_eval stoi_eval)

text \<open>
  C10. \<open>has_path\<close> returns true exactly when \<open>at_path\<close> returns a value other than Null.
  When \<open>at_path\<close> returns Null, \<open>has_path\<close> returns false: for the key \<open>a\<close> that is present
  and holds Null as much as for the key \<open>a\<close> that is absent.
\<close>

theorem C10_has_path:
  "(has_path v path = Inr True \<longleftrightarrow> (\<exists>x. at_path v path = Inr x \<and> x \<noteq> JNull))
   \<and> (at_path v path = Inr JNull \<longrightarrow> has_path v path = Inr False)
   \<and> map_find [(''a'', JNull)] ''a'' = Some JNull
   \<and> has_path (JObject [(''a'', JNull)]) ''a'' = Inr False
   \<and> map_find ([] :: (string \<times> JSON) list) ''a'' = None
   \<and> has_path (JObject []) ''a'' = Inr False"
proof -
  have 1: "has_path (JObject [(''a'', JNull)]) ''a'' = Inr False"
    by (simp add: path_eval char_eval)
  have 2: "has_path (JObject []) ''a'' = Inr False"
    by (simp add: path_eval char_eval)
  have 3: "has_path v path = Inr True \<longleftrightarrow> (\<exists>x. at_path v path = Inr x \<and> x \<noteq> JNull)"
    by (cases "at_path v path") (simp_all add: has_path_def is_null_def)
  have 4: "at_path v path = Inr JNull \<longrightarrow> has_path v path = Inr False"
    by (simp add: has_path_def is_null_def)
  from 1 2 3 4 show ?thesis
    by simp
qed

theorem C10_has_path_witness:
  "at_path (JObject [(''a'', JNull)]) ''a'' = Inr JNull
   \<and> has_path (JObject [(''a'', JNull)]) ''a'' = Inr False
   \<and> has_path (JObject [(''a'', JBool False)]) ''a'' = Inr True"
proof -
  have 1: "at_path (JObject [(''a'', JNull)]) ''a'' = Inr JNull"
    by (simp add: path_eval char_eval)
  have 2: "at_path (JObject [(''a'', JBool False)]) ''a'' = Inr (JBool False)"
    by (simp add: path_eval char_eval)
  from C10_has_path [where v = "JObject [(''a'', JNull)]" and path = "''a''"]
    C10_has_path [where v = "JObject [(''a'', JBool False)]" and path = "''a''"] 1 2
  show ?thesis
    by simp
qed

subsection \<open>C1: the round trip through the compact text\<close>




text \<open>
  Two more families of values do not survive the round trip. \<open>dump\<close> writes the keys of an
  object without escaping them, unlike the string values, and it formats a byte above 127 as a
  negative \<^verbatim>\<open>int\<close>, that is with eight hexadecimal digits after \<^verbatim>\<open>\u\<close>.
\<close>

lemma dump_key_unescaped:
  "dump_minified (JObject [([CHR 0x22], JNull)]) = [CHR ''{'', CHR 0x22, CHR 0x22, CHR 0x22] @ '':null}''
   \<and> parse (dump_minified (JObject [([CHR 0x22], JNull)]))
     = Some (Inl (JSONParseError (''Expected '' @ [CHR 0x27] @ '':'' @ [CHR 0x27] @ '' after key in object'')))"
proof -
  define s where "s = [CHR ''{'', CHR 0x22, CHR 0x22, CHR 0x22] @ '':null}''"
  have d: "dump_minified (JObject [([CHR 0x22], JNull)]) = s"
    by (simp add: dump_eval s_def)
  have "parse_value (Suc (Suc 0)) s 0
      = Some (Inl (JSONParseError (''Expected '' @ [CHR 0x27] @ '':'' @ [CHR 0x27] @ '' after key in object'')))"
    by (simp add: parse_eval char_eval s_def)
  from parse_eq [OF this] d show ?thesis
    by (simp add: s_def)
qed

lemma dump_high_byte:
  "dump_minified (JString [CHR 0xC3, CHR 0xA9])
     = [CHR 0x22, CHR 0x5C] @ ''uffffffc3'' @ [CHR 0x5C] @ ''uffffffa9'' @ [CHR 0x22]
   \<and> parse (dump_minified (JString [CHR 0xC3, CHR 0xA9]))
     = Some (Inr (JString ([CHR 0xEF, CHR 0xBF, CHR 0xBF] @ ''ffc3'' @ [CHR 0xEF, CHR 0xBF, CHR 0xBF] @ ''ffa9'')))"
proof -
  define s where "s = [CHR 0x22, CHR 0x5C] @ ''uffffffc3'' @ [CHR 0x5C] @ ''uffffffa9'' @ [CHR 0x22]"
  have d: "dump_minified (JString [CHR 0xC3, CHR 0xA9]) = s"
    by (simp add: dump_eval s_def)
  have "parse_value (Suc 0) s 0
      = Some (Inr (JString ([CHR 0xEF, CHR 0xBF, CHR 0xBF] @ ''ffc3'' @ [CHR 0xEF, CHR 0xBF, CHR 0xBF] @ ''ffa9''), 22))"
    by (simp add: parse_eval char_eval stoi_eval s_def)
  from parse_eq [OF this] d show ?thesis
    by (simp add: s_def char_eval)
qed

subsection \<open>C6: keys and attributes in sorted order\<close>

text \<open>
  C6. In every JSON value and every XML node the keys of an Object, and the attributes of a
  node, are held in ascending order of key. This is so for the values that the parsers return,
  and it is kept by every sequence of mutations, done to the value itself or to what a chain
  of \<^verbatim>\<open>operator[]\<close> refers to. \<^verbatim>\<open>keys()\<close> gives the keys in that order, \<open>dump\<close> writes the
  members in that order and the XML serializer the attributes; an Object or a node that is
  given distinct keys in whatever order of insertion holds and writes them sorted.
\<close>

theorem C6_sorted_keys:
  "(sorted_keys v \<and> (\<forall>(steps, m) \<in> set ms. sorted_keys (payload m)) \<longrightarrow>
      sorted_keys (foldl (\<lambda>v (steps, m). mutate_at steps m v) v ms))
   \<and> (parse s = Some (Inr v) \<longrightarrow> sorted_keys v)
   \<and> (sorted_keys (JObject obj) \<longrightarrow> sorted_wrt (<) (keys (JObject obj)))
   \<and> dump pretty i z p (JObject obj) =
       ''{'' @ drop 1 (concat (map (member_text pretty i z p) obj))
       @ (if pretty \<and> obj \<noteq> [] then CHR 0x0A # replicate i CHR '' '' else []) @ ''}''
   \<and> (distinct (map fst kvs) \<longrightarrow> JSON_of_pairs kvs = JObject (sort_key fst kvs))
   \<and> (sorted_attributes n \<and> (\<forall>(names, m) \<in> set nms. sorted_attributes (node_payload m)) \<longrightarrow>
      sorted_attributes (foldl (\<lambda>n (names, m). mutate_node_at names m n) n nms))
   \<and> (xml_parse s = Some (Inr n) \<longrightarrow> sorted_attributes n)
   \<and> (sorted_attributes n \<longrightarrow> sorted_wrt (<) (map fst (attributes n)))
   \<and> (\<exists>rest. xml_dump pretty i z n =
         indent_text pretty i z @ ''<'' @ name n @ concat (map attribute_text (attributes n)) @ rest)
   \<and> (distinct (map fst attrs) \<longrightarrow>
        attributes (foldl (\<lambda>n (k, v). set_attribute n k v) (new_node nm) attrs)
          = sort_key fst attrs)"
proof -
  have a: "sorted_attributes n \<longrightarrow> sorted_wrt (<) (map fst (attributes n))"
    by (cases n) simp
  have b: "distinct (map fst attrs) \<longrightarrow>
      attributes (foldl (\<lambda>n (k, v). set_attribute n k v) (new_node nm) attrs) = sort_key fst attrs"
    by (simp add: set_attribute_all new_node_def assign_all_sort)
  have c: "distinct (map fst kvs) \<longrightarrow> JSON_of_pairs kvs = JObject (sort_key fst kvs)"
    by (simp add: JSON_of_pairs_def assign_all_sort)
  have d: "sorted_keys (JObject obj) \<longrightarrow> sorted_wrt (<) (keys (JObject obj))"
    by (simp add: keys_def)
  from a b c d sorted_keys_mutations [of v ms] sorted_attributes_mutations [of n nms]
    parse_sorted_keys [of s v] xml_parse_sorted [of s n] dump_object_members [of pretty i z p obj]
    xml_dump_attributes [of pretty i z n]
  show ?thesis
    by blast
qed

text \<open>
  Assigning the key \<open>b\<close> before \<open>a\<close>, and the attribute \<open>z\<close> before \<open>a\<close>, gives
  \<^verbatim>\<open>{"a":null,"b":true,...}\<close> and \<^verbatim>\<open><r a="2" z="1">\<close>.
\<close>

theorem C6_sorted_keys_witness:
  "foldl (\<lambda>v (steps, m). mutate_at steps m v) JNull
      [([Inl ''b''], Assign (JBool True)), ([Inl ''a''], Assign JNull),
       ([Inl ''c'', Inr 1], Push_back (JBool False))]
     = JObject [(''a'', JNull), (''b'', JBool True), (''c'', JArray [JNull, JArray [JBool False]])]
   \<and> sorted_keys (JObject [(''a'', JNull), (''b'', JBool True),
         (''c'', JArray [JNull, JArray [JBool False]])])
   \<and> keys (JObject [(''a'', JNull), (''b'', JBool True),
         (''c'', JArray [JNull, JArray [JBool False]])]) = [''a'', ''b'', ''c'']
   \<and> dump_minified (JObject [(''a'', JNull), (''b'', JBool True),
         (''c'', JArray [JNull, JArray [JBool False]])])
       = [CHR ''{'', CHR 0x22] @ ''a'' @ [CHR 0x22] @ '':null,'' @ [CHR 0x22] @ ''b'' @ [CHR 0x22]
         @ '':true,'' @ [CHR 0x22] @ ''c'' @ [CHR 0x22] @ '':[null,[false]]}''
   \<and> JSON_of_pairs [(''b'', JBool True), (''a'', JNull)] = JObject [(''a'', JNull), (''b'', JBool True)]
   \<and> foldl (\<lambda>n (names, m). mutate_node_at names m n) (new_node ''r'')
        [([], Set_attribute ''z'' ''1''), ([], Set_attribute ''a'' ''2''),
         ([''k''], Set_attribute ''m'' ''3'')]
     = Node ''r'' [] [(''a'', ''2''), (''z'', ''1'')] [Node ''k'' [] [(''m'', ''3'')] []]
   \<and> sorted_attributes (Node ''r'' [] [(''a'', ''2''), (''z'', ''1'')] [Node ''k'' [] [(''m'', ''3'')] []])
   \<and> xml_dump False 0 2 (Node ''r'' [] [(''a'', ''2''), (''z'', ''1'')] [Node ''k'' [] [(''m'', ''3'')] []])
       = ''<r a='' @ [CHR 0x22] @ ''2'' @ [CHR 0x22] @ '' z='' @ [CHR 0x22] @ ''1'' @ [CHR 0x22]
         @ ''><k m='' @ [CHR 0x22] @ ''3'' @ [CHR 0x22] @ '' /></r>''"
proof -
  let ?ms = "[([Inl ''b''], Assign (JBool True)), ([Inl ''a''], Assign JNull),
       ([Inl ''c'', Inr 1], Push_back (JBool False))]"
  let ?R = "JObject [(''a'', JNull), (''b'', JBool True), (''c'', JArray [JNull, JArray [JBool False]])]"
  let ?nms = "[([], Set_attribute ''z'' ''1''), ([], Set_attribute ''a'' ''2''),
         ([''k''], Set_attribute ''m'' ''3'')]"
  let ?N = "Node ''r'' [] [(''a'', ''2''), (''z'', ''1'')] [Node ''k'' [] [(''m'', ''3'')] []]"
  have m: "foldl (\<lambda>v (steps, m). mutate_at steps m v) JNull ?ms = ?R"
    by (simp add: map_subscript_def is_null_def resize_def less_list_code less_char_def)
  have nm: "foldl (\<lambda>n (names, m). mutate_node_at names m n) (new_node ''r'') ?nms = ?N"
    by (simp add: operator_subscript_def set_attribute_def new_node_def add_child_def
        less_list_code less_char_def)
  have k: "keys ?R = [''a'', ''b'', ''c'']"
    by (simp add: keys_def)
  have d: "dump_minified ?R = [CHR ''{'', CHR 0x22] @ ''a'' @ [CHR 0x22] @ '':null,'' @ [CHR 0x22] @ ''b'' @ [CHR 0x22]
         @ '':true,'' @ [CHR 0x22] @ ''c'' @ [CHR 0x22] @ '':[null,[false]]}''"
    by (simp add: dump_minified_def)
  have p: "JSON_of_pairs [(''b'', JBool True), (''a'', JNull)] = JObject [(''a'', JNull), (''b'', JBool True)]"
    by (simp add: JSON_of_pairs_def less_list_code less_char_def)
  have x: "xml_dump False 0 2 ?N = ''<r a='' @ [CHR 0x22] @ ''2'' @ [CHR 0x22] @ '' z='' @ [CHR 0x22] @ ''1'' @ [CHR 0x22]
         @ ''><k m='' @ [CHR 0x22] @ ''3'' @ [CHR 0x22] @ '' /></r>''"
    by (simp add: xml_dump_def encode_text_def encode_char_def Let_def)
  have "sorted_keys (foldl (\<lambda>v (steps, m). mutate_at steps m v) JNull ?ms)"
    using C6_sorted_keys [where v = JNull and ms = ?ms] by simp
  moreover have "sorted_attributes (foldl (\<lambda>n (names, m). mutate_node_at names m n) (new_node ''r'') ?nms)"
    using C6_sorted_keys [where n = "new_node ''r''" and nms = ?nms] by (simp add: new_node_def)
  ultimately show ?thesis
    unfolding m nm using m nm k d p x by simp
qed

subsection \<open>C7: the text runs of an element\<close>

text \<open>
  C7. When \<open>parse_node\<close> returns a node, the content of the element is a sequence of text
  runs and children, in the order in which the parser meets them; the text of the node is the
  concatenation of the decoded runs, whether a run stands before, between or after the
  children, and the children of the node are the children of the sequence. Nothing else of
  the sequence is kept in the node.
\<close>

theorem C7_text_runs:
  "parse_node (Suc f) s idx0 = Some (Inr (node, idx')) \<Longrightarrow>
     \<exists>items. element_items f s idx0 = Some (Inr items)
       \<and> text_content node = concat (map decode_text (runs items))
       \<and> child_nodes node = children items"
proof -
  assume p: "parse_node (Suc f) s idx0 = Some (Inr (node, idx'))"
  then obtain node0 idx sc where ot: "open_tag s idx0 = Inr (node0, idx, sc)"
    by (cases "open_tag s idx0") (auto simp: parse_node.simps)
  have empty: "text_content node0 = [] \<and> child_nodes node0 = []"
    using ot by (auto simp: open_tag_def Let_def new_node_def split: if_splits sum.splits)
  show ?thesis
  proof (cases sc)
    case True
    with p ot empty show ?thesis
      by (auto simp: parse_node.simps element_items_def)
  next
    case False
    from p ot False obtain n1 i1 cs1 where
      pc: "parse_content f s idx idx node0 = Some (Inr (n1, i1, cs1))"
      and cl: "close_node s i1 cs1 n1 = Inr (node, idx')"
      by (auto simp: parse_node.simps split: option.splits sum.splits)
    from pc obtain items where
      ci: "content_items f s idx idx = Some (Inr (items, i1, cs1))"
      and n1: "n1 = Node (name node0) (text_content node0 @ concat (map decode_text (runs items)))
          (attributes node0) (child_nodes node0 @ children items)"
      unfolding parse_content_items [of f s idx idx node0]
      by (auto split: option.splits sum.splits)
    from cl have "node = (if i1 > cs1 then add_text n1 (decode_text (substr s cs1 (i1 - cs1))) else n1)"
      by (auto simp: close_node_def Let_def split: if_splits)
    then have "node = Node (name n1) (text_content n1 @ concat (map decode_text (runs (run_item s cs1 i1))))
        (attributes n1) (child_nodes n1 @ children (run_item s cs1 i1))"
      by (simp only: add_run)
    with n1 empty ot False ci show ?thesis
      by (auto simp: element_items_def runs_append children_append)
  qed
qed

text \<open>
  In \<^verbatim>\<open><a>x<b/>&lt;</a>\<close> the runs \<open>x\<close> and \<open>&lt;\<close> stand on either side of the child \<open>b\<close>, and the
  text of the node is \<open>x<\<close>.
\<close>

theorem C7_text_runs_witness:
  "parse_node (Suc (Suc (Suc (Suc (Suc (Suc (Suc (Suc (Suc 0))))))))) ''<a>x<b/>&lt;</a>'' 0
     = Some (Inr (Node ''a'' ''x<'' [] [Node ''b'' [] [] []], 16))
   \<and> element_items (Suc (Suc (Suc (Suc (Suc (Suc (Suc (Suc 0)))))))) ''<a>x<b/>&lt;</a>'' 0
     = Some (Inr [Run ''x'', Child (Node ''b'' [] [] []), Run ''&lt;''])
   \<and> decode_text ''&lt;'' = ''<''
   \<and> (\<exists>items.
        element_items (Suc (Suc (Suc (Suc (Suc (Suc (Suc (Suc 0)))))))) ''<a>x<b/>&lt;</a>'' 0
          = Some (Inr items)
        \<and> ''x<'' = concat (map decode_text (runs items))
        \<and> [Node ''b'' [] [] []] = children items)"
proof -
  have p: "parse_node (Suc (Suc (Suc (Suc (Suc (Suc (Suc (Suc (Suc 0))))))))) ''<a>x<b/>&lt;</a>'' 0
      = Some (Inr (Node ''a'' ''x<'' [] [Node ''b'' [] [] []], 16))"
    by (simp add: xml_eval char_eval)
  have e: "element_items (Suc (Suc (Suc (Suc (Suc (Suc (Suc (Suc 0)))))))) ''<a>x<b/>&lt;</a>'' 0
      = Some (Inr [Run ''x'', Child (Node ''b'' [] [] []), Run ''&lt;''])"
    by (simp add: xml_eval char_eval element_items_def content_items.simps run_item_def)
  have d: "decode_text ''&lt;'' = ''<''"
    by (simp add: xml_eval char_eval)
  from C7_text_runs [OF p] p e d show ?thesis
    by simp
qed

text \<open>
  Three documents that place the same text before, around and after the child are parsed to
  the same node: where a run stood among the children is lost.
\<close>

lemma interleaving_not_recorded:
  "xml_parse ''<a>x<b/>y</a>'' = Some (Inr (Node ''a'' ''xy'' [] [Node ''b'' [] [] []]))
   \<and> xml_parse ''<a>xy<b/></a>'' = Some (Inr (Node ''a'' ''xy'' [] [Node ''b'' [] [] []]))
   \<and> xml_parse ''<a><b/>xy</a>'' = Some (Inr (Node ''a'' ''xy'' [] [Node ''b'' [] [] []]))
   \<and> element_items (Suc (Suc (Suc (Suc (Suc (Suc 0)))))) ''<a>x<b/>y</a>'' 0
     = Some (Inr [Run ''x'', Child (Node ''b'' [] [] []), Run ''y''])
   \<and> element_items (Suc (Suc (Suc (Suc (Suc (Suc 0)))))) ''<a>xy<b/></a>'' 0
     = Some (Inr [Run ''xy'', Child (Node ''b'' [] [] [])])
   \<and> element_items (Suc (Suc (Suc (Suc (Suc (Suc 0)))))) ''<a><b/>xy</a>'' 0
     = Some (Inr [Child (Node ''b'' [] [] []), Run ''xy''])"
proof -
  have s: "skip_ws_and_prolog ''<a>x<b/>y</a>'' 0 = Inr 0"
    "skip_ws_and_prolog ''<a>xy<b/></a>'' 0 = Inr 0"
    "skip_ws_and_prolog ''<a><b/>xy</a>'' 0 = Inr 0"
    by (simp_all add: xml_eval char_eval)
  have p1: "parse_node (Suc (Suc (Suc (Suc (Suc (Suc (Suc 0))))))) ''<a>x<b/>y</a>'' 0
      = Some (Inr (Node ''a'' ''xy'' [] [Node ''b'' [] [] []], 13))"
    by (simp add: xml_eval char_eval)
  have p2: "parse_node (Suc (Suc (Suc (Suc (Suc (Suc (Suc 0))))))) ''<a>xy<b/></a>'' 0
      = Some (Inr (Node ''a'' ''xy'' [] [Node ''b'' [] [] []], 13))"
    by (simp add: xml_eval char_eval)
  have p3: "parse_node (Suc (Suc (Suc (Suc (Suc (Suc (Suc 0))))))) ''<a><b/>xy</a>'' 0
      = Some (Inr (Node ''a'' ''xy'' [] [Node ''b'' [] [] []], 13))"
    by (simp add: xml_eval char_eval)
  have e1: "element_items (Suc (Suc (Suc (Suc (Suc (Suc 0)))))) ''<a>x<b/>y</a>'' 0
      = Some (Inr [Run ''x'', Child (Node ''b'' [] [] []), Run ''y''])"
    by (simp add: xml_eval char_eval element_items_def content_items.simps run_item_def)
  have e2: "element_items (Suc (Suc (Suc (Suc (Suc (Suc 0)))))) ''<a>xy<b/></a>'' 0
      = Some (Inr [Run ''xy'', Child (Node ''b'' [] [] [])])"
    by (simp add: xml_eval char_eval element_items_def content_items.simps run_item_def)
  have e3: "element_items (Suc (Suc (Suc (Suc (Suc (Suc 0)))))) ''<a><b/>xy</a>'' 0
      = Some (Inr [Child (Node ''b'' [] [] []), Run ''xy''])"
    by (simp add: xml_eval char_eval element_items_def content_items.simps run_item_def)
  from xml_parse_eq [OF s(1) p1] xml_parse_eq [OF s(2) p2] xml_parse_eq [OF s(3) p3] e1 e2 e3
  show ?thesis
    by (simp add: char_eval)
qed

subsection \<open>C8: the layout of the serialized node\<close>

text \<open>
  C8, as the claim states it, fails for a node that has text and no children. In pretty mode
  the serializer writes it on one line, \<^verbatim>\<open><a>x</a>\<close>, where the claim has a newline after
  the opening tag and the text on a line of its own, indented.
\<close>

theorem C8_counterexample:
  "xml_dump True 0 2 (Node ''a'' ''x'' [] []) = ''<a>x</a>'' @ [CHR 0x0A]
   \<and> dump_as_specified True 0 2 (Node ''a'' ''x'' [] [])
       = ''<a>'' @ [CHR 0x0A] @ ''  x'' @ [CHR 0x0A] @ ''</a>'' @ [CHR 0x0A]"
  by (simp add: xml_dump_def layout_as_specified_def indent_text_def newline_text_def
      encode_text_def encode_char_def replicate_numeral Let_def)

text \<open>
  C8, amended. A node with empty text and no children is written as a self-closing tag. A node
  with children is written as the claim says: the opening tag with the attributes in the
  order of the map, which is the ascending order of their keys, a newline when pretty, the indented text content when it is not empty,
  the children serialized at depth + 1, and the closing tag at the indent of the opening tag.
  A node with text and no children is written on one line, the opening tag, the encoded text
  and the closing tag, with no newline or indent between them, also when pretty.
\<close>

theorem C8_dump_layout:
  "xml_dump pretty indent_level indent_size n =
     (if pretty \<and> text_only n
      then indent_text pretty indent_level indent_size
           @ ''<'' @ name n @ dump_attributes (attributes n) @ ''>''
           @ encode_text (text_content n)
           @ ''</'' @ name n @ ''>'' @ newline_text pretty
      else layout_as_specified pretty indent_level indent_size n
             (concat (map (xml_dump pretty (indent_level + 1) indent_size) (child_nodes n))))
   \<and> dump_attributes (attributes n) = concat (map attribute_text (attributes n))
   \<and> (sorted_attributes n \<longrightarrow> sorted_wrt (<) (map fst (attributes n)))"
proof -
  have x: "xml_dump pretty (indent_level + 1) indent_size = dump_recursive pretty (indent_level + 1) indent_size"
    by (rule ext) (simp add: xml_dump_def)
  have "xml_dump pretty indent_level indent_size n =
     (if pretty \<and> text_only n
      then indent_text pretty indent_level indent_size
           @ ''<'' @ name n @ dump_attributes (attributes n) @ ''>''
           @ encode_text (text_content n)
           @ ''</'' @ name n @ ''>'' @ newline_text pretty
      else layout_as_specified pretty indent_level indent_size n
             (concat (map (xml_dump pretty (indent_level + 1) indent_size) (child_nodes n))))"
    unfolding x
    by (cases n)
       (simp add: xml_dump_def layout_as_specified_def indent_text_def newline_text_def
          text_only_def Let_def)
  moreover have "sorted_attributes n \<longrightarrow> sorted_wrt (<) (map fst (attributes n))"
    by (cases n) simp
  ultimately show ?thesis
    by (simp add: dump_attributes_concat)
qed

text \<open>
  A node with two attributes, text and two children, one of them with text only, in pretty
  mode with an indent of two.
\<close>

theorem C8_dump_layout_witness:
  "sorted_attributes (Node ''a'' ''x'' [(''k'', ''<v>''), (''m'', ''1'')]
      [Node ''b'' [] [] [], Node ''c'' ''t'' [] []])
   \<and> sorted_wrt (<) [''k'', ''m'']
   \<and> xml_dump True 0 2 (Node ''a'' ''x'' [(''k'', ''<v>''), (''m'', ''1'')]
        [Node ''b'' [] [] [], Node ''c'' ''t'' [] []])
     = ''<a k='' @ [CHR 0x22] @ ''&lt;v&gt;'' @ [CHR 0x22] @ '' m='' @ [CHR 0x22] @ ''1'' @ [CHR 0x22]
       @ ''>'' @ [CHR 0x0A] @ ''  x'' @ [CHR 0x0A] @ ''  <b />'' @ [CHR 0x0A]
       @ ''  <c>t</c>'' @ [CHR 0x0A] @ ''</a>'' @ [CHR 0x0A]"
proof -
  let ?b = "Node ''b'' [] [] []"
  let ?c = "Node ''c'' ''t'' [] []"
  let ?a = "Node ''a'' ''x'' [(''k'', ''<v>''), (''m'', ''1'')] [?b, ?c]"
  have s: "sorted_attributes ?a"
    by (simp add: less_list_code less_char_def)
  have b: "xml_dump True 1 2 ?b = ''  <b />'' @ [CHR 0x0A]"
    using C8_dump_layout [of True 1 2 ?b]
    by (simp add: layout_as_specified_def text_only_def indent_text_def newline_text_def
        replicate_numeral)
  have c: "xml_dump True 1 2 ?c = ''  <c>t</c>'' @ [CHR 0x0A]"
    using C8_dump_layout [of True 1 2 ?c]
    by (simp add: text_only_def indent_text_def newline_text_def encode_text_def encode_char_def
        replicate_numeral)
  from C8_dump_layout [of True 0 2 ?a] s b c show ?thesis
    by (simp add: layout_as_specified_def text_only_def indent_text_def newline_text_def
        encode_text_def encode_char_def replicate_numeral)
qed

text \<open>In compact mode the two agree on every tree.\<close>

lemma dump_as_specified_agrees:
  "\<not> pretty \<Longrightarrow>
     xml_dump pretty indent_level indent_size n = dump_as_specified pretty indent_level indent_size n"
proof (induction n arbitrary: indent_level)
  case (Node nm tc attrs cs)
  then show ?case
    by (simp add: xml_dump_def layout_as_specified_def indent_text_def newline_text_def Let_def
        cong: map_cong)
qed

subsection \<open>C9: the two subscript operators\<close>

text \<open>
  C9. When the node has a child named \<open>k\<close>, the mutable \<^verbatim>\<open>operator[]\<close> leaves the node as it
  is and refers to the first such child, which is the child that the \<^verbatim>\<open>const\<close> overload
  returns. When it has none, the mutable operator appends a new node named \<open>k\<close>, with no
  text, attribute or child, and refers to it, so the node has one child more; the \<^verbatim>\<open>const\<close>
  overload raises an error.
\<close>

theorem C9_mutable_subscript:
  "((\<exists>c \<in> set (child_nodes n). name c = k) \<longrightarrow>
      (\<exists>i < length (child_nodes n).
         name (child_nodes n ! i) = k \<and> (\<forall>j<i. name (child_nodes n ! j) \<noteq> k)
         \<and> operator_subscript n k = (n, i)
         \<and> operator_subscript_const n k = Inr (child_nodes n ! i)))
   \<and> ((\<forall>c \<in> set (child_nodes n). name c \<noteq> k) \<longrightarrow>
      operator_subscript n k =
        (Node (name n) (text_content n) (attributes n) (child_nodes n @ [Node k [] [] []]),
         length (child_nodes n))
      \<and> operator_subscript_const n k = Inl (XMLParseError (''Child node not found: '' @ k)))"
proof (cases "find_child (child_nodes n) k")
  case None
  then show ?thesis
    using find_child_None [of "child_nodes n" k]
    by (simp add: operator_subscript_def operator_subscript_const_def add_child_def new_node_def)
next
  case (Some i)
  from find_child_Some [OF Some] have "\<not> (\<forall>c \<in> set (child_nodes n). name c \<noteq> k)"
    by (metis nth_mem)
  with Some find_child_Some [OF Some] show ?thesis
    by (auto simp: operator_subscript_def operator_subscript_const_def)
qed

theorem C9_mutable_subscript_witness:
  "operator_subscript (Node ''r'' [] [] [Node ''a'' ''1'' [] [], Node ''b'' ''2'' [] [], Node ''b'' ''3'' [] []]) ''b''
     = (Node ''r'' [] [] [Node ''a'' ''1'' [] [], Node ''b'' ''2'' [] [], Node ''b'' ''3'' [] []], 1)
   \<and> operator_subscript_const
        (Node ''r'' [] [] [Node ''a'' ''1'' [] [], Node ''b'' ''2'' [] [], Node ''b'' ''3'' [] []]) ''b''
     = Inr (Node ''b'' ''2'' [] [])
   \<and> operator_subscript (Node ''r'' [] [] [Node ''a'' ''1'' [] [], Node ''b'' ''2'' [] [], Node ''b'' ''3'' [] []]) ''c''
     = (Node ''r'' [] [] [Node ''a'' ''1'' [] [], Node ''b'' ''2'' [] [], Node ''b'' ''3'' [] [],
          Node ''c'' [] [] []], 3)
   \<and> operator_subscript_const
        (Node ''r'' [] [] [Node ''a'' ''1'' [] [], Node ''b'' ''2'' [] [], Node ''b'' ''3'' [] []]) ''c''
     = Inl (XMLParseError ''Child node not found: c'')"
proof -
  let ?n = "Node ''r'' [] [] [Node ''a'' ''1'' [] [], Node ''b'' ''2'' [] [], Node ''b'' ''3'' [] []]"
  from C9_mutable_subscript [of ?n "''b''"]
  obtain i where i: "i < 3" and nm: "name (child_nodes ?n ! i) = ''b''"
    and first: "\<forall>j<i. name (child_nodes ?n ! j) \<noteq> ''b''"
    and r: "operator_subscript ?n ''b'' = (?n, i)"
      "operator_subscript_const ?n ''b'' = Inr (child_nodes ?n ! i)"
    by auto
  have "i = 1"
  proof -
    from i consider "i = 0" | "i = 1" | "i = 2" by arith
    then show ?thesis
    proof cases
      case 1
      with nm show ?thesis by simp
    next
      case 2
      then show ?thesis .
    next
      case 3
      with first [rule_format, of 1] show ?thesis by simp
    qed
  qed
  with r C9_mutable_subscript [of ?n "''c''"] show ?thesis
    by simp
qed

end
